theory Spec2Isabelle
  imports Complex_Main "HOL-Library.Word" "HOL-Library.Signed_Division"
begin

unbundle bit_operations_syntax

section \<open>Data model of the HA controller\<close>

text \<open>
  The Go package \<open>icingadb_ha_lib\<close> holds one struct, \<open>HA\<close>, and one long method, \<open>HA.run\<close>,
  whose loop body is embedded here block by block. Machine integers are words: the Unix
  second counts are \<open>int64\<close>, the counter of critical operations is \<open>uint64\<close>, a UUID is a
  \<open>[16]byte\<close> array, that is 128 bits. Signed comparisons of the source are \<open><s\<close> and \<open>\<le>s\<close>.
\<close>

type_synonym int64 = "64 word"
type_synonym uint64 = "64 word"
type_synonym uuid = "128 word"
type_synonym error = string

text \<open>
  A \<open>time.Time\<close> obtained from \<open>time.Now()\<close> carries a monotonic clock reading, and \<open>Sub\<close> of two
  such values subtracts the monotonic readings: a \<open>time\<close> is that reading in nanoseconds. The zero
  value \<open>time.Time{}\<close> is never returned by \<open>time.Now()\<close>; a field that may hold it is an option,
  \<open>None\<close> being the zero value. A \<open>Duration\<close> is a count of nanoseconds.
\<close>

type_synonym time = int
type_synonym Duration = int

datatype responsibility =
  readyForTakeover | TakeoverNoSync | TakeoverSync | stop | notReadyForTakeover

datatype responsibilityAction =
  noAction | tryTakeover | doTakeover | ceaseOperation

record HA =
  ourUUID :: uuid
  icinga2MTime :: int64
  responsibility :: responsibility
  responsibleSince :: "time option"
  runningCriticalOperations :: uint64
  lastCriticalOperationEnd :: int64

text \<open>\<open>icingadb_connection.Environment\<close>: the fields the controller reads.\<close>

record Environment =
  ID :: "8 word list"
  Name :: string

text \<open>
  One row of the table \<open>icingadb_instance\<close>, with the four columns the statements of the source
  name. The table is the list of its rows; a \<open>SELECT\<close> returns the matching rows in the order
  of that list, an \<open>UPDATE\<close> rewrites every matching row, an \<open>INSERT\<close> appends.
\<close>

record icingadb_instance =
  id_col :: uuid
  environment_id :: "8 word list"
  heartbeat :: int64
  responsible :: string

type_synonym table = "icingadb_instance list"

definition sql_select :: "(icingadb_instance \<Rightarrow> bool) \<Rightarrow> table \<Rightarrow> table" where
  "sql_select P tbl = filter P tbl"

definition sql_update ::
  "(icingadb_instance \<Rightarrow> bool) \<Rightarrow> (icingadb_instance \<Rightarrow> icingadb_instance) \<Rightarrow> table \<Rightarrow> table" where
  "sql_update P g tbl = map (\<lambda>r. if P r then g r else r) tbl"

definition sql_insert :: "icingadb_instance \<Rightarrow> table \<Rightarrow> table" where
  "sql_insert r tbl = tbl @ [r]"

text \<open>
  Every call into the database wrapper or into Redis can return an error. The calls of the
  source are named by their place; \<open>faults\<close> says which of them fail in one loop iteration,
  and with which error.
\<close>

datatype call =
  SelectById | UpdateById | InsertInstance
  | SelectResponsible | UpdateByEnvironment | UpdateResponsibleStale | UpdateResponsibleVacant
  | SelectFreshOthers | UpdateRelease
  | Commit | RedisPublish

type_synonym faults = "call \<Rightarrow> error option"

text \<open>No call fails.\<close>

definition noFaults :: faults where
  "noFaults = (\<lambda>_. None)"

text \<open>
  The readings of the clock in one loop iteration, one per call site of \<open>time.Now()\<close>:
  \<open>nowAlive\<close> in \<open>icinga2IsAlive\<close>, \<open>nowDrained\<close> in the \<open>stop\<close> case, \<open>nowUpsert\<close> in the update
  or insert of the own row, \<open>nowStale\<close> in the test of the incumbent's heartbeat, \<open>nowSince\<close> where
  \<open>responsibleSince\<close> is set or compared, \<open>nowCease\<close> in the release query. All but \<open>nowSince\<close>
  are the result of \<open>.Unix()\<close>.
\<close>

record clock =
  nowAlive :: int64
  nowDrained :: int64
  nowUpsert :: int64
  nowStale :: int64
  nowSince :: time
  nowCease :: int64

text \<open>What the controller emits: log records and Redis publications, in order.
  \<open>UUIDText u\<close> stands for \<open>u.String()\<close>.\<close>

datatype level = Info | Warn

datatype field = Text string | UUIDText uuid

datatype event =
  Log level string "(string \<times> field) list"
  | Publish string field

text \<open>The variables of \<open>HA.run\<close> that live across loop iterations, the table and the output.\<close>

record run_state =
  ha :: HA
  env :: Environment
  nextAction :: responsibilityAction
  theirUUID :: uuid
  db :: table
  out :: "event list"

datatype flow = Proceed | Continue | Return "error option"

datatype chan_event = Tick | EnvUpdate Environment | Closed

section \<open>Methods of \<open>HA\<close>\<close>

definition getResponsibility :: "HA \<Rightarrow> responsibility" where
  "getResponsibility h = responsibility h"

text \<open>\<open>setResponsibility\<close> swaps: it returns the previous value.\<close>

definition setResponsibility :: "responsibility \<Rightarrow> HA \<Rightarrow> responsibility \<times> HA" where
  "setResponsibility r h = (responsibility h, h\<lparr>responsibility := r\<rparr>)"

definition icinga2IsAlive :: "int64 \<Rightarrow> HA \<Rightarrow> bool" where
  "icinga2IsAlive now h \<longleftrightarrow> now - icinga2MTime h <s 15"

definition Icinga2HeartBeat :: "int64 \<Rightarrow> HA \<Rightarrow> HA" where
  "Icinga2HeartBeat now h = h\<lparr>icinga2MTime := now\<rparr>"

definition IsResponsible :: "HA \<Rightarrow> bool" where
  "IsResponsible h \<longleftrightarrow> getResponsibility h = TakeoverSync"

text \<open>
  \<open>RunCriticalOperation\<close>: \<open>op\<close> is a closure working on a world \<open>'w\<close> of its own; it is given
  the \<open>HA\<close> value it is invoked under, so that the order of the counter updates around the call
  can be observed. \<open>now\<close> is \<open>time.Now().Unix()\<close> after \<open>op\<close> returned. Adding \<open>^uint64(0)\<close>
  is adding \<open>NOT 0\<close>.
\<close>

definition RunCriticalOperation ::
  "int64 \<Rightarrow> (HA \<Rightarrow> 'w \<Rightarrow> error option \<times> 'w) \<Rightarrow> HA \<Rightarrow> 'w \<Rightarrow> error option \<times> HA \<times> 'w" where
  "RunCriticalOperation now op h w =
     (if getResponsibility h = TakeoverSync \<or> getResponsibility h = stop then
        (let h1 = h\<lparr>runningCriticalOperations := runningCriticalOperations h + 1\<rparr>;
             (err, w') = op h1 w;
             h2 = h1\<lparr>lastCriticalOperationEnd := now\<rparr>;
             h3 = h2\<lparr>runningCriticalOperations := runningCriticalOperations h2 + NOT 0\<rparr>
         in (err, h3, w'))
      else (None, h, w))"

text \<open>
  \<open>Time.Sub\<close> saturates at the least and the greatest \<open>Duration\<close>; \<open>Duration.Seconds\<close> adds the
  whole seconds and the remaining nanoseconds over \<open>1e9\<close> (Go's \<open>/\<close> and \<open>%\<close> truncate), here in
  exact arithmetic.
\<close>

definition Sub :: "time \<Rightarrow> time \<Rightarrow> Duration" where
  "Sub t u = max (- (2 ^ 63)) (min (2 ^ 63 - 1) (t - u))"

definition Seconds :: "Duration \<Rightarrow> real" where
  "Seconds d = real_of_int (d sdiv 1000000000) + real_of_int (d smod 1000000000) / 1000000000"

section \<open>The transactions of \<open>HA.run\<close>\<close>

text \<open>
  \<open>SqlTransactionQuiet\<close> runs the closure inside one serializable transaction: an error of the
  closure or of the commit leaves the table as it was, otherwise the closure's writes are
  the new table.
\<close>

definition SqlTransactionQuiet :: "faults \<Rightarrow> (table \<Rightarrow> error + table \<times> 'a) \<Rightarrow> table \<Rightarrow> error + table \<times> 'a" where
  "SqlTransactionQuiet f body tbl =
     (case body tbl of
        Inl e \<Rightarrow> Inl e
      | Inr r \<Rightarrow> (case f Commit of Some e \<Rightarrow> Inl e | None \<Rightarrow> Inr r))"

text \<open>The first block of the election closure: update the own row, or insert it.\<close>

definition upsert :: "faults \<Rightarrow> int64 \<Rightarrow> uuid \<Rightarrow> Environment \<Rightarrow> table \<Rightarrow> error + table" where
  "upsert f now u e tbl =
     (case f SelectById of
        Some err \<Rightarrow> Inl err
      | None \<Rightarrow>
          (let rows = sql_select (\<lambda>r. id_col r = u) tbl in
           if length rows > 0 then
             (case f UpdateById of
                Some err \<Rightarrow> Inl err
              | None \<Rightarrow>
                  Inr (sql_update (\<lambda>r. id_col r = u)
                         (\<lambda>r. r\<lparr>environment_id := ID e, heartbeat := now\<rparr>) tbl))
           else
             (case f InsertInstance of
                Some err \<Rightarrow> Inl err
              | None \<Rightarrow>
                  Inr (sql_insert \<lparr>id_col = u, environment_id = ID e, heartbeat = now,
                                   responsible = ''n''\<rparr> tbl))))"

text \<open>
  The election closure. It yields the table, \<open>justTakenOver\<close> and \<open>theirUUID\<close>; \<open>rows[0]\<close> is
  the head of the selected rows.
\<close>

definition election ::
  "faults \<Rightarrow> clock \<Rightarrow> HA \<Rightarrow> Environment \<Rightarrow> uuid \<Rightarrow> table \<Rightarrow> error + table \<times> bool \<times> uuid" where
  "election f c h e their tbl =
     (case upsert f (nowUpsert c) (ourUUID h) e tbl of
        Inl err \<Rightarrow> Inl err
      | Inr t1 \<Rightarrow>
          (case f SelectResponsible of
             Some err \<Rightarrow> Inl err
           | None \<Rightarrow>
               (case sql_select (\<lambda>r. environment_id r = ID e \<and> responsible r = ''y'') t1 of
                  r0 # _ \<Rightarrow>
                    (let their' = id_col r0 in
                     if their' = ourUUID h then Inr (t1, True, their')
                     else if 10 \<le>s nowStale c - heartbeat r0 then
                       (case f UpdateByEnvironment of
                          Some err \<Rightarrow> Inl err
                        | None \<Rightarrow>
                            (let t2 = sql_update (\<lambda>r. environment_id r = ID e)
                                        (\<lambda>r. r\<lparr>responsible := ''n''\<rparr>) t1 in
                             case f UpdateResponsibleStale of
                               Some err \<Rightarrow> Inl err
                             | None \<Rightarrow>
                                 Inr (sql_update (\<lambda>r. id_col r = ourUUID h)
                                        (\<lambda>r. r\<lparr>responsible := ''y''\<rparr>) t2, True, their')))
                     else Inr (t1, False, their'))
                | [] \<Rightarrow>
                    (case f UpdateResponsibleVacant of
                       Some err \<Rightarrow> Inl err
                     | None \<Rightarrow>
                         Inr (sql_update (\<lambda>r. id_col r = ourUUID h)
                                (\<lambda>r. r\<lparr>responsible := ''y''\<rparr>) t1, True, their)))))"

text \<open>
  The closure of \<open>ceaseOperation\<close>. The comparison \<open>? - heartbeat < 10\<close> is evaluated by the
  database, on exact integers.
\<close>

definition release :: "faults \<Rightarrow> int64 \<Rightarrow> uuid \<Rightarrow> Environment \<Rightarrow> table \<Rightarrow> error + table \<times> unit" where
  "release f now u e tbl =
     (case f SelectFreshOthers of
        Some err \<Rightarrow> Inl err
      | None \<Rightarrow>
          (let rows = sql_select (\<lambda>r. environment_id r = ID e \<and> responsible r = ''n''
                                     \<and> sint now - sint (heartbeat r) < 10) tbl in
           if length rows > 0 then
             (case f UpdateRelease of
                Some err \<Rightarrow> Inl err
              | None \<Rightarrow>
                  Inr (sql_update (\<lambda>r. id_col r = u) (\<lambda>r. r\<lparr>responsible := ''n''\<rparr>) tbl, ()))
           else Inr (tbl, ())))"

section \<open>The loop body of \<open>HA.run\<close>\<close>

definition log :: "level \<Rightarrow> string \<Rightarrow> (string \<times> field) list \<Rightarrow> run_state \<Rightarrow> run_state" where
  "log l msg fs s = s\<lparr>out := out s @ [Log l msg fs]\<rparr>"

definition stopping :: "responsibility \<Rightarrow> run_state \<Rightarrow> run_state" where
  "stopping r s =
     (let s1 = log Warn ''Icinga 2 detected as not running, stopping.''
                 [(''context'', Text ''HA''), (''uuid'', UUIDText (ourUUID (ha s))),
                  (''env'', Text (Name (env s)))] s
      in s1\<lparr>ha := snd (setResponsibility r (ha s1))\<rparr>)"

text \<open>
  The first \<open>switch\<close>: it either changes the responsibility and starts the next iteration at
  once (\<open>continue\<close>), or chooses \<open>nextAction\<close>.
\<close>

definition switch_responsibility :: "clock \<Rightarrow> run_state \<Rightarrow> flow \<times> run_state" where
  "switch_responsibility c s =
     (case getResponsibility (ha s) of
        readyForTakeover \<Rightarrow>
          if \<not> icinga2IsAlive (nowAlive c) (ha s) then (Continue, stopping notReadyForTakeover s)
          else (Proceed, s\<lparr>nextAction := tryTakeover\<rparr>)
      | TakeoverNoSync \<Rightarrow>
          if \<not> icinga2IsAlive (nowAlive c) (ha s) then (Continue, stopping stop s)
          else (Proceed, s\<lparr>nextAction := tryTakeover\<rparr>)
      | TakeoverSync \<Rightarrow>
          if \<not> icinga2IsAlive (nowAlive c) (ha s) then (Continue, stopping stop s)
          else (Proceed, s\<lparr>nextAction := doTakeover\<rparr>)
      | stop \<Rightarrow>
          if runningCriticalOperations (ha s) = 0
             \<and> 5 \<le>s nowDrained c - lastCriticalOperationEnd (ha s)
          then (Proceed, s\<lparr>nextAction := ceaseOperation\<rparr>)
          else (Proceed, s\<lparr>nextAction := doTakeover\<rparr>)
      | notReadyForTakeover \<Rightarrow>
          if icinga2IsAlive (nowAlive c) (ha s) then
            (let s1 = log Info ''Icinga 2 detected as running again.''
                        [(''context'', Text ''HA''), (''uuid'', UUIDText (ourUUID (ha s))),
                         (''env'', Text (Name (env s)))] s
             in (Continue, s1\<lparr>ha := snd (setResponsibility readyForTakeover (ha s1))\<rparr>))
          else (Proceed, s\<lparr>nextAction := noAction\<rparr>))"

text \<open>What follows the election transaction when it committed.\<close>

definition after_election :: "clock \<Rightarrow> faults \<Rightarrow> bool \<Rightarrow> run_state \<Rightarrow> flow \<times> run_state" where
  "after_election c f justTakenOver s =
     (let not_taken = (\<lambda>s'. if \<not> justTakenOver then
                               log Info ''Other instance is responsible''
                                 [(''context'', Text ''HA''), (''env'', Text (Name (env s'))),
                                  (''their_uuid'', UUIDText (theirUUID s'))] s'
                             else s')
      in
      if justTakenOver \<and> getResponsibility (ha s) \<noteq> stop then
        (case responsibleSince (ha s) of
           None \<Rightarrow>
             (let h1 = (ha s)\<lparr>responsibleSince := Some (nowSince c)\<rparr> in
              (Proceed, not_taken (s\<lparr>ha := snd (setResponsibility TakeoverNoSync h1)\<rparr>)))
         | Some since \<Rightarrow>
             (let responsibleFor = Seconds (Sub (nowSince c) since) in
              if responsibleFor \<ge> 5 then
                (let (prev, h1) = setResponsibility TakeoverSync (ha s);
                     s1 = s\<lparr>ha := h1\<rparr>;
                     s2 = (if prev = TakeoverNoSync then
                             log Info ''Taking over''
                               [(''context'', Text ''HA''), (''env'', Text (Name (env s1))),
                                (''their_uuid'', UUIDText (theirUUID s1))] s1
                           else s1);
                     s3 = s2\<lparr>out := out s2 @ [Publish ''icingadb:wakeup'' (UUIDText (ourUUID (ha s2)))]\<rparr>
                 in case f RedisPublish of
                      Some err \<Rightarrow> (Return (Some err), s3)
                    | None \<Rightarrow> (Proceed, not_taken s3))
              else (Proceed, not_taken s)))
      else (Proceed, not_taken s))"

definition takeover :: "clock \<Rightarrow> faults \<Rightarrow> run_state \<Rightarrow> flow \<times> run_state" where
  "takeover c f s =
     (case SqlTransactionQuiet f (election f c (ha s) (env s) (theirUUID s)) (db s) of
        Inl errTx \<Rightarrow> (Return (Some errTx), s)
      | Inr (t, justTakenOver, their) \<Rightarrow>
          after_election c f justTakenOver (s\<lparr>db := t, theirUUID := their\<rparr>))"

definition cease :: "clock \<Rightarrow> faults \<Rightarrow> run_state \<Rightarrow> flow \<times> run_state" where
  "cease c f s =
     (case SqlTransactionQuiet f (release f (nowCease c) (ourUUID (ha s)) (env s)) (db s) of
        Inl errTx \<Rightarrow> (Return (Some errTx), s)
      | Inr (t, _) \<Rightarrow>
          (let s1 = log Info ''Other instance is responsible. Ceasing operations.''
                      [(''context'', Text ''HA''), (''env'', Text (Name (env s)))] (s\<lparr>db := t\<rparr>);
               h1 = (ha s1)\<lparr>responsibleSince := None\<rparr>
           in (Proceed, s1\<lparr>ha := snd (setResponsibility notReadyForTakeover h1)\<rparr>)))"

definition perform :: "clock \<Rightarrow> faults \<Rightarrow> run_state \<Rightarrow> flow \<times> run_state" where
  "perform c f s =
     (case nextAction s of
        noAction \<Rightarrow> (Proceed, s)
      | tryTakeover \<Rightarrow> takeover c f s
      | doTakeover \<Rightarrow> takeover c f s
      | ceaseOperation \<Rightarrow> cease c f s)"

text \<open>
  The \<open>select\<close> that ends an iteration: a tick, an environment (then the next tick is awaited
  too), or the closed channel.
\<close>

definition await :: "chan_event \<Rightarrow> run_state \<Rightarrow> flow \<times> run_state" where
  "await ev s =
     (case ev of
        Tick \<Rightarrow> (Proceed, s)
      | EnvUpdate e \<Rightarrow> (Proceed, s\<lparr>env := e\<rparr>)
      | Closed \<Rightarrow> (Return None, s))"

text \<open>One iteration of the \<open>for\<close> loop.\<close>

definition iteration :: "clock \<Rightarrow> faults \<Rightarrow> chan_event \<Rightarrow> run_state \<Rightarrow> flow \<times> run_state" where
  "iteration c f ev s =
     (case switch_responsibility c s of
        (Proceed, s1) \<Rightarrow>
          (case perform c f s1 of
             (Proceed, s2) \<Rightarrow> await ev s2
           | r \<Rightarrow> r)
      | r \<Rightarrow> r)"

section \<open>The loop and \<open>HA.run\<close>\<close>

text \<open>
  What one iteration meets: the clock readings, the failing calls, what the final \<open>select\<close>
  receives, and the values other goroutines and other replicas left behind since the last
  iteration: the atomics written by \<open>Icinga2HeartBeat\<close> and \<open>RunCriticalOperation\<close>, and the
  table.
\<close>

record input =
  clk :: clock
  flt :: faults
  chn :: chan_event
  seenMTime :: int64
  seenRunning :: uint64
  seenLastEnd :: int64
  seenTable :: table

definition interfere :: "input \<Rightarrow> run_state \<Rightarrow> run_state" where
  "interfere i s =
     s\<lparr>ha := (ha s)\<lparr>icinga2MTime := seenMTime i,
                     runningCriticalOperations := seenRunning i,
                     lastCriticalOperationEnd := seenLastEnd i\<rparr>,
       db := seenTable i\<rparr>"

text \<open>
  The loop runs until it returns; on a finite list of inputs it has either returned
  (\<open>Some\<close> of the returned error) or is still running (\<open>None\<close>).
\<close>

fun loop :: "input list \<Rightarrow> run_state \<Rightarrow> error option option \<times> run_state" where
  "loop [] s = (None, s)"
| "loop (i # ins) s =
     (case iteration (clk i) (flt i) (chn i) (interfere i s) of
        (Return e, s') \<Rightarrow> (Some e, s')
      | (_, s') \<Rightarrow> loop ins s')"

text \<open>
  \<open>HA.run\<close> before the loop: it waits for the first environment, draws the UUID, and calls
  \<open>Icinga2HeartBeat\<close>. \<open>entry\<close> is the state with which the loop is entered; \<open>first\<close> is
  what the environment channel delivers first (\<open>None\<close> when it is closed), \<open>newRandom\<close> the
  result of \<open>uuid.NewRandom()\<close>, \<open>now\<close> the reading of the first \<open>Icinga2HeartBeat\<close>. The
  table is not read before the loop.
\<close>

definition waiting :: event where
  "waiting = Log Info ''Waiting for Icinga 2 to tell us its environment''
               [(''context'', Text ''HA'')]"

definition entry :: "Environment \<Rightarrow> uuid \<Rightarrow> int64 \<Rightarrow> HA \<Rightarrow> run_state" where
  "entry e u now h =
     (let s1 = \<lparr>ha = h\<lparr>ourUUID := u\<rparr>, env = e, nextAction = noAction, theirUUID = 0,
                db = [], out = [waiting]\<rparr>;
          s2 = log Info ''Received environment from Icinga 2''
                 [(''context'', Text ''HA''), (''uuid'', UUIDText (ourUUID (ha s1))),
                  (''env'', Text (Name e))] s1
      in s2\<lparr>ha := Icinga2HeartBeat now (ha s2)\<rparr>)"

definition run ::
  "Environment option \<Rightarrow> uuid \<times> error option \<Rightarrow> int64 \<Rightarrow> input list \<Rightarrow> HA \<Rightarrow> error option option \<times> HA \<times> event list" where
  "run first newRandom now ins h =
     (case first of
        None \<Rightarrow> (Some None, h, [waiting])
      | Some e \<Rightarrow>
          (case snd newRandom of
             Some errNR \<Rightarrow> (Some (Some errNR), h\<lparr>ourUUID := fst newRandom\<rparr>, [waiting])
           | None \<Rightarrow>
               (case loop ins (entry e (fst newRandom) now h) of
                  (r, s) \<Rightarrow> (r, ha s, out s))))"

text \<open>The \<open>HA\<close> value a caller passes to \<open>Run\<close>: the zero value of the struct.\<close>

definition zeroHA :: HA where
  "zeroHA = \<lparr>ourUUID = 0, icinga2MTime = 0, responsibility = readyForTakeover,
             responsibleSince = None, runningCriticalOperations = 0,
             lastCriticalOperationEnd = 0\<rparr>"

section \<open>Notions used in the statements\<close>

text \<open>
  The three records the election can emit, the test of the \<open>stop\<close> case, the ways one
  iteration can change \<open>HA\<close>, and what it means for a run of the loop to have claimed and to
  have been promoted: \<open>after ins s\<close> is the state reached from \<open>s\<close> on the inputs \<open>ins\<close>.
\<close>

definition taking_over :: "run_state \<Rightarrow> event" where
  "taking_over s = Log Info ''Taking over''
     [(''context'', Text ''HA''), (''env'', Text (Name (env s))),
      (''their_uuid'', UUIDText (theirUUID s))]"

definition other_responsible :: "run_state \<Rightarrow> event" where
  "other_responsible s = Log Info ''Other instance is responsible''
     [(''context'', Text ''HA''), (''env'', Text (Name (env s))),
      (''their_uuid'', UUIDText (theirUUID s))]"

definition wakeup :: "run_state \<Rightarrow> event" where
  "wakeup s = Publish ''icingadb:wakeup'' (UUIDText (ourUUID (ha s)))"

definition drained :: "clock \<Rightarrow> HA \<Rightarrow> bool" where
  "drained c h \<longleftrightarrow> runningCriticalOperations h = 0
      \<and> 5 \<le> sint (nowDrained c - lastCriticalOperationEnd h)"

definition ha_trans :: "clock \<Rightarrow> HA \<Rightarrow> HA \<Rightarrow> bool" where
  "ha_trans c h h' \<longleftrightarrow>
     h' = h
     \<or> (responsibility h = readyForTakeover \<and> \<not> icinga2IsAlive (nowAlive c) h
         \<and> h' = h\<lparr>responsibility := notReadyForTakeover\<rparr>)
     \<or> ((responsibility h = TakeoverNoSync \<or> responsibility h = TakeoverSync)
         \<and> \<not> icinga2IsAlive (nowAlive c) h \<and> h' = h\<lparr>responsibility := stop\<rparr>)
     \<or> (responsibility h = notReadyForTakeover \<and> icinga2IsAlive (nowAlive c) h
         \<and> h' = h\<lparr>responsibility := readyForTakeover\<rparr>)
     \<or> (responsibility h \<noteq> stop \<and> responsibility h \<noteq> notReadyForTakeover
         \<and> icinga2IsAlive (nowAlive c) h \<and> responsibleSince h = None
         \<and> h' = h\<lparr>responsibleSince := Some (nowSince c), responsibility := TakeoverNoSync\<rparr>)
     \<or> (responsibility h \<noteq> stop \<and> responsibility h \<noteq> notReadyForTakeover
         \<and> icinga2IsAlive (nowAlive c) h
         \<and> (\<exists>since. responsibleSince h = Some since \<and> 5000000000 \<le> nowSince c - since)
         \<and> h' = h\<lparr>responsibility := TakeoverSync\<rparr>)
     \<or> (responsibility h = stop \<and> drained c h
         \<and> h' = h\<lparr>responsibleSince := None, responsibility := notReadyForTakeover\<rparr>)"

definition idle :: "HA \<Rightarrow> bool" where
  "idle h \<longleftrightarrow> responsibleSince h = None
     \<and> (responsibility h = readyForTakeover \<or> responsibility h = notReadyForTakeover)"

definition after :: "input list \<Rightarrow> run_state \<Rightarrow> run_state" where
  "after ins s = snd (loop ins s)"

definition claim_at :: "run_state \<Rightarrow> input list \<Rightarrow> input \<Rightarrow> bool" where
  "claim_at s0 pre j \<longleftrightarrow>
     idle (ha (after pre s0))
     \<and> responsibility (ha (after (pre @ [j]) s0)) = TakeoverNoSync
     \<and> responsibleSince (ha (after (pre @ [j]) s0)) = Some (nowSince (clk j))"

definition promotion_at :: "run_state \<Rightarrow> input list \<Rightarrow> input \<Rightarrow> time \<Rightarrow> bool" where
  "promotion_at s0 pre i since \<longleftrightarrow>
     responsibility (ha (after pre s0)) = TakeoverNoSync
     \<and> responsibleSince (ha (after pre s0)) = Some since
     \<and> responsibility (ha (after (pre @ [i]) s0)) = TakeoverSync
     \<and> 5000000000 \<le> nowSince (clk i) - since"

definition tracked :: "run_state \<Rightarrow> input list \<Rightarrow> bool" where
  "tracked s0 ins \<longleftrightarrow>
     idle (ha (after ins s0))
     \<or> (\<exists>pre j post. ins = pre @ j # post \<and> claim_at s0 pre j
           \<and> responsibleSince (ha (after ins s0)) = Some (nowSince (clk j))
           \<and> (responsibility (ha (after ins s0)) = TakeoverNoSync
               \<or> responsibility (ha (after ins s0)) = stop
               \<or> (responsibility (ha (after ins s0)) = TakeoverSync
                   \<and> (\<exists>mid i post'. post = mid @ i # post'
                         \<and> promotion_at s0 (pre @ j # mid) i (nowSince (clk j))))))"

text \<open>
  What one iteration appends to the output, what the election transaction appends, and the
  condition under which it publishes.
\<close>

definition emitted :: "clock \<Rightarrow> faults \<Rightarrow> chan_event \<Rightarrow> run_state \<Rightarrow> event list" where
  "emitted c f ev s = drop (length (out s)) (out (snd (iteration c f ev s)))"

definition renews :: "clock \<Rightarrow> faults \<Rightarrow> run_state \<Rightarrow> bool" where
  "renews c f s \<longleftrightarrow>
     (responsibility (ha s) = readyForTakeover \<or> responsibility (ha s) = TakeoverNoSync
        \<or> responsibility (ha s) = TakeoverSync)
     \<and> icinga2IsAlive (nowAlive c) (ha s)
     \<and> (case SqlTransactionQuiet f (election f c (ha s) (env s) (theirUUID s)) (db s) of
          Inl err \<Rightarrow> False
        | Inr (t, justTakenOver, their) \<Rightarrow> justTakenOver)
     \<and> (case responsibleSince (ha s) of
          None \<Rightarrow> False
        | Some since \<Rightarrow> 5000000000 \<le> nowSince c - since)"

definition election_events :: "clock \<Rightarrow> faults \<Rightarrow> run_state \<Rightarrow> event list" where
  "election_events c f s =
     (case SqlTransactionQuiet f (election f c (ha s) (env s) (theirUUID s)) (db s) of
        Inl err \<Rightarrow> []
      | Inr (t, j, u) \<Rightarrow>
          (if j \<and> responsibility (ha s) \<noteq> stop
                \<and> (case responsibleSince (ha s) of None \<Rightarrow> False
                    | Some since \<Rightarrow> 5000000000 \<le> nowSince c - since)
             then (if responsibility (ha s) = TakeoverNoSync
                   then [taking_over (s\<lparr>db := t, theirUUID := u\<rparr>)] else [])
                  @ [wakeup s]
             else [])
          @ (if j then [] else [other_responsible (s\<lparr>db := t, theirUUID := u\<rparr>)]))"

definition elected :: "clock \<Rightarrow> faults \<Rightarrow> run_state \<Rightarrow> bool" where
  "elected c f s \<longleftrightarrow>
     (case SqlTransactionQuiet f (election f c (ha s) (env s) (theirUUID s)) (db s) of
          Inl err \<Rightarrow> False
        | Inr (t, justTakenOver, their) \<Rightarrow> justTakenOver)
     \<and> (case responsibleSince (ha s) of
          None \<Rightarrow> False
        | Some since \<Rightarrow> 5000000000 \<le> nowSince c - since)"

section \<open>Two replicas on one registry\<close>

text \<open>
  Two controllers run \<open>HA.run\<close> against the same table. The election runs in one
  serializable transaction, so the iterations of the two loops take effect one after the
  other: a schedule is the list of these iterations, each with the replica that runs it and
  what it meets. \<open>tick\<close> runs one iteration of one replica on the shared table (the table of
  the input is not used). A replica whose loop has returned does not tick again; the
  schedules considered below have no failing call and no closed channel.

  \<open>on_time\<close>: all clock readings of the iteration are taken at one instant, \<open>Unix\<close> being
  \<open>.Unix()\<close> of that instant, no call fails, the \<open>select\<close> receives a tick, and upstream is
  alive. \<open>regular G\<close>: time does not run backwards, and at every iteration each replica that
  has run before has run at most \<open>G\<close> nanoseconds ago; \<open>la\<close> and \<open>lb\<close> are the instants of the
  last iterations of the two replicas. \<open>cold_start\<close>: both replicas enter their loops, with
  different UUIDs and the same environment, and the table has no row of theirs and no
  responsible row of the environment.
\<close>

datatype replica = ReplicaA | ReplicaB

record system =
  repA :: run_state
  repB :: run_state
  registry :: table

definition replica_state :: "replica \<Rightarrow> system \<Rightarrow> run_state" where
  "replica_state X sys = (case X of ReplicaA \<Rightarrow> repA sys | ReplicaB \<Rightarrow> repB sys)"

definition other :: "replica \<Rightarrow> replica" where
  "other X = (case X of ReplicaA \<Rightarrow> ReplicaB | ReplicaB \<Rightarrow> ReplicaA)"

definition tick :: "replica \<Rightarrow> input \<Rightarrow> system \<Rightarrow> system" where
  "tick X i sys =
     (let s = snd (iteration (clk i) (flt i) (chn i)
                     ((interfere i (replica_state X sys))\<lparr>db := registry sys\<rparr>))
      in case X of
           ReplicaA \<Rightarrow> sys\<lparr>repA := s, registry := db s\<rparr>
         | ReplicaB \<Rightarrow> sys\<lparr>repB := s, registry := db s\<rparr>)"

fun schedule :: "(replica \<times> input) list \<Rightarrow> system \<Rightarrow> system" where
  "schedule [] sys = sys"
| "schedule ((X, i) # evs) sys = schedule evs (tick X i sys)"

definition Unix :: "time \<Rightarrow> int64" where
  "Unix t = word_of_int (t div 1000000000)"

definition clock_at :: "time \<Rightarrow> clock" where
  "clock_at t = \<lparr>nowAlive = Unix t, nowDrained = Unix t, nowUpsert = Unix t, nowStale = Unix t,
                  nowSince = t, nowCease = Unix t\<rparr>"

definition timely :: "input \<Rightarrow> bool" where
  "timely i \<longleftrightarrow>
     clk i = clock_at (nowSince (clk i))
     \<and> 0 \<le> nowSince (clk i) \<and> nowSince (clk i) < 2 ^ 62
     \<and> flt i = noFaults \<and> chn i = Tick"

definition upstream_alive :: "input \<Rightarrow> bool" where
  "upstream_alive i \<longleftrightarrow> nowAlive (clk i) - seenMTime i <s 15"

definition on_time :: "input \<Rightarrow> bool" where
  "on_time i \<longleftrightarrow> timely i \<and> upstream_alive i"

definition spaced :: "int \<Rightarrow> time option \<Rightarrow> time \<Rightarrow> bool" where
  "spaced G l t = (case l of None \<Rightarrow> True | Some t0 \<Rightarrow> t0 \<le> t \<and> t - t0 \<le> G)"

fun regular :: "int \<Rightarrow> time option \<Rightarrow> time option \<Rightarrow> (replica \<times> input) list \<Rightarrow> bool" where
  "regular G la lb [] = True"
| "regular G la lb ((X, i) # evs) =
     (on_time i \<and> spaced G la (nowSince (clk i)) \<and> spaced G lb (nowSince (clk i))
      \<and> (case X of
            ReplicaA \<Rightarrow> regular G (Some (nowSince (clk i))) lb evs
          | ReplicaB \<Rightarrow> regular G la (Some (nowSince (clk i))) evs))"

text \<open>
  The two halves of \<open>regular\<close>, for schedules that have only one of them: upstream alive at
  every iteration, and the spacing of the iterations.
\<close>

fun all_alive :: "(replica \<times> input) list \<Rightarrow> bool" where
  "all_alive [] = True"
| "all_alive ((X, i) # evs) = (on_time i \<and> all_alive evs)"

fun all_spaced :: "int \<Rightarrow> time option \<Rightarrow> time option \<Rightarrow> (replica \<times> input) list \<Rightarrow> bool" where
  "all_spaced G la lb [] = True"
| "all_spaced G la lb ((X, i) # evs) =
     (timely i \<and> spaced G la (nowSince (clk i)) \<and> spaced G lb (nowSince (clk i))
      \<and> (case X of
            ReplicaA \<Rightarrow> all_spaced G (Some (nowSince (clk i))) lb evs
          | ReplicaB \<Rightarrow> all_spaced G la (Some (nowSince (clk i))) evs))"

definition held_by :: "uuid \<Rightarrow> 8 word list \<Rightarrow> int64 \<Rightarrow> table \<Rightarrow> bool" where
  "held_by u e hb T \<longleftrightarrow>
     (\<exists>r\<in>set T. id_col r = u)
     \<and> (\<forall>r\<in>set T. id_col r = u \<longrightarrow>
           environment_id r = e \<and> responsible r = ''y'' \<and> heartbeat r = hb)
     \<and> (\<forall>r\<in>set T. environment_id r = e \<and> responsible r = ''y'' \<longrightarrow> id_col r = u)"

definition standby :: "uuid \<Rightarrow> table \<Rightarrow> bool" where
  "standby u T \<longleftrightarrow> (\<forall>r\<in>set T. id_col r = u \<longrightarrow> responsible r = ''n'')"

definition vacant :: "8 word list \<Rightarrow> table \<Rightarrow> bool" where
  "vacant e T \<longleftrightarrow> (\<forall>r\<in>set T. \<not> (environment_id r = e \<and> responsible r = ''y''))"

definition refreshed :: "uuid \<Rightarrow> 8 word list \<Rightarrow> int64 \<Rightarrow> table \<Rightarrow> table" where
  "refreshed u e now T =
     map (\<lambda>r. if id_col r = u then r\<lparr>environment_id := e, heartbeat := now\<rparr> else r) T"

definition cold_start :: "Environment \<Rightarrow> system \<Rightarrow> bool" where
  "cold_start e sys \<longleftrightarrow>
     env (repA sys) = e \<and> env (repB sys) = e
     \<and> ourUUID (ha (repA sys)) \<noteq> ourUUID (ha (repB sys))
     \<and> responsibleSince (ha (repA sys)) = None
     \<and> responsibility (ha (repA sys)) = readyForTakeover
     \<and> responsibleSince (ha (repB sys)) = None
     \<and> responsibility (ha (repB sys)) = readyForTakeover
     \<and> vacant (ID e) (registry sys)
     \<and> (\<forall>r\<in>set (registry sys). id_col r \<noteq> ourUUID (ha (repA sys))
                                   \<and> id_col r \<noteq> ourUUID (ha (repB sys)))"

definition claimed :: "Environment \<Rightarrow> replica \<Rightarrow> time \<Rightarrow> time \<Rightarrow> system \<Rightarrow> bool" where
  "claimed e X t1 tX sys \<longleftrightarrow>
     env (replica_state X sys) = e \<and> env (replica_state (other X) sys) = e
     \<and> ourUUID (ha (replica_state X sys)) \<noteq> ourUUID (ha (replica_state (other X) sys))
     \<and> responsibleSince (ha (replica_state X sys)) = Some t1
     \<and> responsibility (ha (replica_state X sys))
         = (if 5000000000 \<le> tX - t1 then TakeoverSync else TakeoverNoSync)
     \<and> responsibleSince (ha (replica_state (other X) sys)) = None
     \<and> responsibility (ha (replica_state (other X) sys)) = readyForTakeover
     \<and> held_by (ourUUID (ha (replica_state X sys))) (ID e) (Unix tX) (registry sys)
     \<and> standby (ourUUID (ha (replica_state (other X) sys))) (registry sys)"

definition ticking :: "replica \<Rightarrow> input \<Rightarrow> system \<Rightarrow> run_state" where
  "ticking X i sys = (interfere i (replica_state X sys))\<lparr>db := registry sys\<rparr>"

definition time_of :: "replica \<times> input \<Rightarrow> time" where
  "time_of ev = nowSince (clk (snd ev))"

definition last_of :: "replica \<Rightarrow> time option \<Rightarrow> time option \<Rightarrow> time option" where
  "last_of X la lb = (case X of ReplicaA \<Rightarrow> la | ReplicaB \<Rightarrow> lb)"

definition exactly_one :: "system \<Rightarrow> bool" where
  "exactly_one sys \<longleftrightarrow> IsResponsible (ha (repA sys)) \<noteq> IsResponsible (ha (repB sys))"

definition one_incumbent :: "Environment \<Rightarrow> table \<Rightarrow> bool" where
  "one_incumbent e T \<longleftrightarrow>
     (\<forall>r\<in>set T. \<forall>r'\<in>set T.
        environment_id r = ID e \<and> responsible r = ''y''
        \<and> environment_id r' = ID e \<and> responsible r' = ''y'' \<longrightarrow> id_col r = id_col r')"

section \<open>Concrete values\<close>

text \<open>Small inputs on which the theorems below are evaluated.\<close>

definition exEnv :: Environment where
  "exEnv = \<lparr>ID = [1], Name = ''E''\<rparr>"

definition exHA :: "responsibility \<Rightarrow> time option \<Rightarrow> HA" where
  "exHA r since = \<lparr>ourUUID = 1, icinga2MTime = 100, responsibility = r, responsibleSince = since,
                    runningCriticalOperations = 0, lastCriticalOperationEnd = 0\<rparr>"

definition exState :: "responsibility \<Rightarrow> time option \<Rightarrow> table \<Rightarrow> run_state" where
  "exState r since tbl = \<lparr>ha = exHA r since, env = exEnv, nextAction = noAction, theirUUID = 0,
                           db = tbl, out = []\<rparr>"

definition exClock :: "int64 \<Rightarrow> time \<Rightarrow> clock" where
  "exClock t m = \<lparr>nowAlive = t, nowDrained = t, nowUpsert = t, nowStale = t, nowSince = m,
                   nowCease = t\<rparr>"

definition exRow :: "uuid \<Rightarrow> int64 \<Rightarrow> string \<Rightarrow> icingadb_instance" where
  "exRow u hb r = \<lparr>id_col = u, environment_id = [1], heartbeat = hb, responsible = r\<rparr>"

definition exOp :: "HA \<Rightarrow> nat \<Rightarrow> error option \<times> nat" where
  "exOp h w = (Some ''failed'', unat (runningCriticalOperations h))"

definition exInput :: "int64 \<Rightarrow> time \<Rightarrow> int64 \<Rightarrow> uint64 \<Rightarrow> int64 \<Rightarrow> table \<Rightarrow> input" where
  "exInput t m mtime running lastEnd tbl =
     \<lparr>clk = exClock t m, flt = noFaults, chn = Tick, seenMTime = mtime,
      seenRunning = running, seenLastEnd = lastEnd, seenTable = tbl\<rparr>"

definition exTick :: "time \<Rightarrow> input" where
  "exTick t = \<lparr>clk = clock_at t, flt = noFaults, chn = Tick, seenMTime = Unix t,
               seenRunning = 0, seenLastEnd = 0, seenTable = []\<rparr>"

definition exSystem :: system where
  "exSystem = \<lparr>repA = entry exEnv 1 0 zeroHA, repB = entry exEnv 2 0 zeroHA, registry = []\<rparr>"

definition exSchedule :: "(replica \<times> input) list" where
  "exSchedule = [(ReplicaB, exTick 1000000000), (ReplicaA, exTick 2000000000), (ReplicaB, exTick 6500000000),
                 (ReplicaA, exTick 7000000000), (ReplicaB, exTick 12000000000)]"

definition exBusy :: "time \<Rightarrow> input" where
  "exBusy t = \<lparr>clk = clock_at t, flt = noFaults, chn = Tick, seenMTime = 6,
               seenRunning = 1, seenLastEnd = 0, seenTable = []\<rparr>"

definition exPause :: "(replica \<times> input) list" where
  "exPause = [(ReplicaA, exTick 1000000000), (ReplicaA, exTick 6000000000),
              (ReplicaB, exTick 17000000000), (ReplicaB, exTick 22000000000),
              (ReplicaA, exTick 23000000000), (ReplicaB, exTick 27000000000),
              (ReplicaA, exTick 28000000000), (ReplicaB, exTick 32000000000),
              (ReplicaA, exTick 33000000000), (ReplicaB, exTick 34000000000)]"

definition exDrain :: "(replica \<times> input) list" where
  "exDrain = [(ReplicaA, exTick 1000000000), (ReplicaB, exTick 3000000000),
              (ReplicaA, exTick 6000000000), (ReplicaB, exTick 8000000000),
              (ReplicaA, exBusy 11000000000), (ReplicaB, exTick 13000000000),
              (ReplicaA, exBusy 16000000000), (ReplicaB, exTick 18000000000),
              (ReplicaA, exBusy 21000000000), (ReplicaA, exBusy 21000000000),
              (ReplicaB, exTick 23000000000), (ReplicaA, exBusy 26000000000),
              (ReplicaB, exTick 28000000000), (ReplicaA, exBusy 31000000000),
              (ReplicaB, exTick 33000000000)]"

section \<open>Auxiliary facts\<close>

lemma Seconds_eq: "Seconds d = real_of_int d / 1000000000"
proof -
  have "d sdiv 1000000000 * 1000000000 + d smod 1000000000 = d"
    by (rule sdiv_mult_smod_eq)
  then have "real_of_int d =
      real_of_int (d sdiv 1000000000) * 1000000000 + real_of_int (d smod 1000000000)"
    by (metis of_int_add of_int_mult of_int_numeral)
  then show ?thesis
    by (simp add: Seconds_def field_simps)
qed

lemma Seconds_ge_5: "5 \<le> Seconds d \<longleftrightarrow> 5000000000 \<le> d"
  by (simp add: Seconds_eq field_simps)

lemma Seconds_Sub_ge_5: "5 \<le> Seconds (Sub t u) \<longleftrightarrow> 5000000000 \<le> t - u"
  by (auto simp add: Seconds_ge_5 Sub_def)

lemma switch_ready:
  "getResponsibility (ha s) = readyForTakeover \<Longrightarrow>
   switch_responsibility c s =
     (if icinga2IsAlive (nowAlive c) (ha s) then (Proceed, s\<lparr>nextAction := tryTakeover\<rparr>)
      else (Continue, stopping notReadyForTakeover s))"
  by (simp add: switch_responsibility_def)

lemma switch_nosync:
  "getResponsibility (ha s) = TakeoverNoSync \<Longrightarrow>
   switch_responsibility c s =
     (if icinga2IsAlive (nowAlive c) (ha s) then (Proceed, s\<lparr>nextAction := tryTakeover\<rparr>)
      else (Continue, stopping stop s))"
  by (simp add: switch_responsibility_def)

lemma switch_sync:
  "getResponsibility (ha s) = TakeoverSync \<Longrightarrow>
   switch_responsibility c s =
     (if icinga2IsAlive (nowAlive c) (ha s) then (Proceed, s\<lparr>nextAction := doTakeover\<rparr>)
      else (Continue, stopping stop s))"
  by (simp add: switch_responsibility_def)

lemma switch_stop:
  "getResponsibility (ha s) = stop \<Longrightarrow>
   switch_responsibility c s =
     (Proceed, s\<lparr>nextAction :=
        (if runningCriticalOperations (ha s) = 0
            \<and> 5 \<le>s nowDrained c - lastCriticalOperationEnd (ha s)
         then ceaseOperation else doTakeover)\<rparr>)"
  by (simp add: switch_responsibility_def)

lemma switch_notready:
  "getResponsibility (ha s) = notReadyForTakeover \<Longrightarrow>
   switch_responsibility c s =
     (if icinga2IsAlive (nowAlive c) (ha s) then
        (Continue, (log Info ''Icinga 2 detected as running again.''
                        [(''context'', Text ''HA''), (''uuid'', UUIDText (ourUUID (ha s))),
                         (''env'', Text (Name (env s)))] s)
                    \<lparr>ha := (ha s)\<lparr>responsibility := readyForTakeover\<rparr>\<rparr>)
      else (Proceed, s\<lparr>nextAction := noAction\<rparr>))"
  by (simp add: switch_responsibility_def Let_def setResponsibility_def log_def)

lemma ha_stopping: "ha (stopping r s) = (ha s)\<lparr>responsibility := r\<rparr>"
  by (simp add: stopping_def Let_def setResponsibility_def log_def)

lemma db_stopping: "db (stopping r s) = db s"
  by (simp add: stopping_def Let_def setResponsibility_def log_def)

lemma iteration_Continue:
  "fst (switch_responsibility c s) = Continue \<Longrightarrow>
   iteration c f ev s = switch_responsibility c s"
  by (cases "switch_responsibility c s") (simp add: iteration_def)

lemma ha_await: "ha (snd (await ev s)) = ha s"
  by (cases ev) (simp_all add: await_def)

lemma db_await: "db (snd (await ev s)) = db s"
  by (cases ev) (simp_all add: await_def)

lemma out_await: "out (snd (await ev s)) = out s"
  by (cases ev) (simp_all add: await_def)

lemma nextAction_await: "nextAction (snd (await ev s)) = nextAction s"
  by (cases ev) (simp_all add: await_def)

lemma upsert_cases:
  "upsert f now u e tbl =
     (case f SelectById of Some err \<Rightarrow> Inl err
      | None \<Rightarrow>
         if \<exists>r\<in>set tbl. id_col r = u then
           (case f UpdateById of Some err \<Rightarrow> Inl err
            | None \<Rightarrow> Inr (map (\<lambda>r. if id_col r = u
                                     then r\<lparr>environment_id := ID e, heartbeat := now\<rparr> else r) tbl))
         else
           (case f InsertInstance of Some err \<Rightarrow> Inl err
            | None \<Rightarrow> Inr (tbl @ [\<lparr>id_col = u, environment_id = ID e, heartbeat = now,
                                   responsible = ''n''\<rparr>])))"
  by (auto simp add: upsert_def sql_select_def sql_update_def sql_insert_def Let_def
        filter_empty_conv split: option.splits)

lemma election_cases:
  "election f c h e their tbl =
     (case upsert f (nowUpsert c) (ourUUID h) e tbl of
        Inl err \<Rightarrow> Inl err
      | Inr t1 \<Rightarrow>
          (case f SelectResponsible of
             Some err \<Rightarrow> Inl err
           | None \<Rightarrow>
               (case filter (\<lambda>r. environment_id r = ID e \<and> responsible r = ''y'') t1 of
                  [] \<Rightarrow>
                    (case f UpdateResponsibleVacant of
                       Some err \<Rightarrow> Inl err
                     | None \<Rightarrow>
                         Inr (map (\<lambda>r. if id_col r = ourUUID h then r\<lparr>responsible := ''y''\<rparr> else r) t1,
                              True, their))
                | r0 # _ \<Rightarrow>
                    if id_col r0 = ourUUID h then Inr (t1, True, id_col r0)
                    else if 10 \<le> sint (nowStale c - heartbeat r0) then
                      (case f UpdateByEnvironment of
                         Some err \<Rightarrow> Inl err
                       | None \<Rightarrow>
                           (case f UpdateResponsibleStale of
                              Some err \<Rightarrow> Inl err
                            | None \<Rightarrow>
                                Inr (map (\<lambda>r. if id_col r = ourUUID h then r\<lparr>responsible := ''y''\<rparr> else r)
                                       (map (\<lambda>r. if environment_id r = ID e then r\<lparr>responsible := ''n''\<rparr> else r) t1),
                                     True, id_col r0)))
                    else Inr (t1, False, id_col r0))))"
  by (simp add: election_def sql_select_def sql_update_def Let_def word_sle_eq
        split: sum.splits option.splits list.splits)

lemma upsert_has_own_row:
  assumes "upsert f now u e tbl = Inr t1"
  shows "\<exists>r\<in>set t1. id_col r = u \<and> environment_id r = ID e \<and> heartbeat r = now"
proof (cases "\<exists>r\<in>set tbl. id_col r = u")
  case True
  then obtain r where r: "r \<in> set tbl" "id_col r = u" by blast
  from assms True have
    "t1 = map (\<lambda>r. if id_col r = u then r\<lparr>environment_id := ID e, heartbeat := now\<rparr> else r) tbl"
    by (simp add: upsert_cases split: option.splits)
  with r have "r\<lparr>environment_id := ID e, heartbeat := now\<rparr> \<in> set t1"
    by force
  with r show ?thesis
    by (intro bexI [of _ "r\<lparr>environment_id := ID e, heartbeat := now\<rparr>"]) simp_all
next
  case False
  with assms have
    "t1 = tbl @ [\<lparr>id_col = u, environment_id = ID e, heartbeat = now, responsible = ''n''\<rparr>]"
    by (simp add: upsert_cases split: option.splits)
  then show ?thesis by simp
qed

lemma ex_own_map:
  assumes "\<exists>r\<in>set t. id_col r = u" and "\<And>r. id_col (g r) = id_col r"
  shows "\<exists>r\<in>set (map g t). id_col r = u"
  using assms by (auto simp add: image_iff)

lemma release_cases:
  "release f now u e tbl =
     (case f SelectFreshOthers of
        Some err \<Rightarrow> Inl err
      | None \<Rightarrow>
          if \<exists>r\<in>set tbl. environment_id r = ID e \<and> responsible r = ''n''
                \<and> sint now - sint (heartbeat r) < 10
          then (case f UpdateRelease of
                  Some err \<Rightarrow> Inl err
                | None \<Rightarrow> Inr (map (\<lambda>r. if id_col r = u then r\<lparr>responsible := ''n''\<rparr> else r) tbl, ()))
          else Inr (tbl, ()))"
  by (auto simp add: release_def sql_select_def sql_update_def Let_def filter_empty_conv
        split: option.splits)

lemma cease_cases:
  "cease c f s =
     (case SqlTransactionQuiet f (release f (nowCease c) (ourUUID (ha s)) (env s)) (db s) of
        Inl errTx \<Rightarrow> (Return (Some errTx), s)
      | Inr (t, _) \<Rightarrow>
          (Proceed, s\<lparr>ha := (ha s)\<lparr>responsibleSince := None, responsibility := notReadyForTakeover\<rparr>,
                       db := t,
                       out := out s @ [Log Info ''Other instance is responsible. Ceasing operations.''
                                        [(''context'', Text ''HA''), (''env'', Text (Name (env s)))]]\<rparr>))"
  by (simp add: cease_def Let_def log_def setResponsibility_def split: sum.splits prod.splits)

lemma tx_release_cases:
  "SqlTransactionQuiet f (release f now u e) tbl =
     (case f SelectFreshOthers of
        Some err \<Rightarrow> Inl err
      | None \<Rightarrow>
          if \<exists>r\<in>set tbl. environment_id r = ID e \<and> responsible r = ''n''
                \<and> sint now - sint (heartbeat r) < 10
          then (case f UpdateRelease of
                  Some err \<Rightarrow> Inl err
                | None \<Rightarrow>
                   (case f Commit of
                      Some err \<Rightarrow> Inl err
                    | None \<Rightarrow> Inr (map (\<lambda>r. if id_col r = u then r\<lparr>responsible := ''n''\<rparr> else r) tbl, ())))
          else (case f Commit of Some err \<Rightarrow> Inl err | None \<Rightarrow> Inr (tbl, ())))"
  by (auto simp add: SqlTransactionQuiet_def release_cases split: option.splits)

lemma after_election_cases:
  "after_election c f j s =
     (if j \<and> responsibility (ha s) \<noteq> stop then
        (case responsibleSince (ha s) of
           None \<Rightarrow>
             (Proceed, s\<lparr>ha := (ha s)\<lparr>responsibleSince := Some (nowSince c),
                                      responsibility := TakeoverNoSync\<rparr>\<rparr>)
         | Some since \<Rightarrow>
             if 5000000000 \<le> nowSince c - since then
               (case f RedisPublish of Some err \<Rightarrow> Return (Some err) | None \<Rightarrow> Proceed,
                s\<lparr>ha := (ha s)\<lparr>responsibility := TakeoverSync\<rparr>,
                  out := out s @ (if responsibility (ha s) = TakeoverNoSync then [taking_over s] else [])
                          @ [wakeup s]\<rparr>)
             else (Proceed, s))
      else (Proceed, if j then s else s\<lparr>out := out s @ [other_responsible s]\<rparr>))"
  by (simp add: after_election_def Let_def log_def setResponsibility_def getResponsibility_def
        Seconds_Sub_ge_5 taking_over_def other_responsible_def wakeup_def
        split: option.splits prod.splits)

lemma takeover_cases:
  "takeover c f s =
     (case SqlTransactionQuiet f (election f c (ha s) (env s) (theirUUID s)) (db s) of
        Inl errTx \<Rightarrow> (Return (Some errTx), s)
      | Inr (t, j, u) \<Rightarrow> after_election c f j (s\<lparr>db := t, theirUUID := u\<rparr>))"
  by (simp add: takeover_def)

lemma ha_after_election:
  "ha (snd (after_election c f j s)) = ha s
   \<or> (j \<and> responsibility (ha s) \<noteq> stop \<and> responsibleSince (ha s) = None
       \<and> ha (snd (after_election c f j s))
           = (ha s)\<lparr>responsibleSince := Some (nowSince c), responsibility := TakeoverNoSync\<rparr>)
   \<or> (j \<and> responsibility (ha s) \<noteq> stop
       \<and> (\<exists>since. responsibleSince (ha s) = Some since \<and> 5000000000 \<le> nowSince c - since)
       \<and> ha (snd (after_election c f j s)) = (ha s)\<lparr>responsibility := TakeoverSync\<rparr>)"
  by (auto simp add: after_election_cases split: option.splits)

lemma ha_takeover:
  "ha (snd (takeover c f s)) = ha s
   \<or> (responsibility (ha s) \<noteq> stop \<and> responsibleSince (ha s) = None
       \<and> ha (snd (takeover c f s))
           = (ha s)\<lparr>responsibleSince := Some (nowSince c), responsibility := TakeoverNoSync\<rparr>)
   \<or> (responsibility (ha s) \<noteq> stop
       \<and> (\<exists>since. responsibleSince (ha s) = Some since \<and> 5000000000 \<le> nowSince c - since)
       \<and> ha (snd (takeover c f s)) = (ha s)\<lparr>responsibility := TakeoverSync\<rparr>)"
proof (cases "SqlTransactionQuiet f (election f c (ha s) (env s) (theirUUID s)) (db s)")
  case (Inl e)
  then show ?thesis by (simp add: takeover_cases)
next
  case (Inr r)
  obtain t j u where r: "r = (t, j, u)" by (cases r)
  show ?thesis
    using ha_after_election [of c f j "s\<lparr>db := t, theirUUID := u\<rparr>"]
    by (simp add: takeover_cases Inr r) blast
qed

lemma ha_cease:
  "ha (snd (cease c f s)) = ha s
   \<or> ha (snd (cease c f s)) = (ha s)\<lparr>responsibleSince := None, responsibility := notReadyForTakeover\<rparr>"
  by (simp add: cease_cases split: sum.splits prod.splits)

lemma snd_iteration:
  "snd (iteration c f ev s) =
     (case switch_responsibility c s of
        (Proceed, s1) \<Rightarrow>
          (case perform c f s1 of
             (Proceed, s2) \<Rightarrow> snd (await ev s2)
           | (_, s2) \<Rightarrow> s2)
      | (_, s1) \<Rightarrow> s1)"
  by (simp add: iteration_def split: prod.splits flow.splits)

lemma iteration_ha_trans: "ha_trans c (ha s) (ha (snd (iteration c f ev s)))"
proof (cases "responsibility (ha s)")
  case readyForTakeover
  then have g: "getResponsibility (ha s) = readyForTakeover" by (simp add: getResponsibility_def)
  show ?thesis
    using ha_takeover [of c f "s\<lparr>nextAction := tryTakeover\<rparr>"] readyForTakeover
    by (auto simp add: snd_iteration switch_ready [OF g] ha_stopping ha_trans_def perform_def
          ha_await split: prod.splits flow.splits)
next
  case TakeoverNoSync
  then have g: "getResponsibility (ha s) = TakeoverNoSync" by (simp add: getResponsibility_def)
  show ?thesis
    using ha_takeover [of c f "s\<lparr>nextAction := tryTakeover\<rparr>"] TakeoverNoSync
    by (auto simp add: snd_iteration switch_nosync [OF g] ha_stopping ha_trans_def perform_def
          ha_await split: prod.splits flow.splits)
next
  case TakeoverSync
  then have g: "getResponsibility (ha s) = TakeoverSync" by (simp add: getResponsibility_def)
  show ?thesis
    using ha_takeover [of c f "s\<lparr>nextAction := doTakeover\<rparr>"] TakeoverSync
    by (auto simp add: snd_iteration switch_sync [OF g] ha_stopping ha_trans_def perform_def
          ha_await split: prod.splits flow.splits)
next
  case stop
  then have g: "getResponsibility (ha s) = stop" by (simp add: getResponsibility_def)
  show ?thesis
  proof (cases "drained c (ha s)")
    case True
    then show ?thesis
      using ha_cease [of c f "s\<lparr>nextAction := ceaseOperation\<rparr>"] stop
      by (auto simp add: snd_iteration switch_stop [OF g] ha_trans_def perform_def drained_def
            word_sle_eq ha_await split: prod.splits flow.splits)
  next
    case False
    then show ?thesis
      using ha_takeover [of c f "s\<lparr>nextAction := doTakeover\<rparr>"] stop
      by (auto simp add: snd_iteration switch_stop [OF g] ha_trans_def perform_def drained_def
            word_sle_eq ha_await split: prod.splits flow.splits)
  qed
next
  case notReadyForTakeover
  then have g: "getResponsibility (ha s) = notReadyForTakeover" by (simp add: getResponsibility_def)
  show ?thesis
    using notReadyForTakeover
    by (auto simp add: snd_iteration switch_notready [OF g] ha_trans_def perform_def
          ha_await split: prod.splits flow.splits)
qed

lemma loop_append:
  "loop (xs @ ys) s = (case loop xs s of (None, s') \<Rightarrow> loop ys s' | (Some e, s') \<Rightarrow> (Some e, s'))"
  by (induction xs arbitrary: s) (auto split: prod.splits flow.splits option.splits)

lemma after_Nil: "after [] s = s"
  by (simp add: after_def)

lemma after_snoc:
  "after (xs @ [x]) s =
     (if fst (loop xs s) = None
      then snd (iteration (clk x) (flt x) (chn x) (interfere x (after xs s)))
      else after xs s)"
  by (auto simp add: after_def loop_append split: prod.splits flow.splits option.splits)

lemma ha_trans_interfere:
  "ha_trans c (ha (interfere i s)) h' \<Longrightarrow>
   (responsibility h' = responsibility (ha s) \<and> responsibleSince h' = responsibleSince (ha s))
   \<or> (responsibility (ha s) = readyForTakeover \<and> responsibility h' = notReadyForTakeover
       \<and> responsibleSince h' = responsibleSince (ha s))
   \<or> ((responsibility (ha s) = TakeoverNoSync \<or> responsibility (ha s) = TakeoverSync)
       \<and> responsibility h' = stop \<and> responsibleSince h' = responsibleSince (ha s))
   \<or> (responsibility (ha s) = notReadyForTakeover \<and> responsibility h' = readyForTakeover
       \<and> responsibleSince h' = responsibleSince (ha s))
   \<or> (responsibility (ha s) \<noteq> stop \<and> responsibility (ha s) \<noteq> notReadyForTakeover
       \<and> responsibleSince (ha s) = None
       \<and> responsibility h' = TakeoverNoSync \<and> responsibleSince h' = Some (nowSince c))
   \<or> (responsibility (ha s) \<noteq> stop \<and> responsibility (ha s) \<noteq> notReadyForTakeover
       \<and> (\<exists>since. responsibleSince (ha s) = Some since \<and> 5000000000 \<le> nowSince c - since)
       \<and> responsibility h' = TakeoverSync \<and> responsibleSince h' = responsibleSince (ha s))
   \<or> (responsibility (ha s) = stop
       \<and> seenRunning i = 0 \<and> 5 \<le> sint (nowDrained c - seenLastEnd i)
       \<and> responsibility h' = notReadyForTakeover \<and> responsibleSince h' = None)"
  unfolding ha_trans_def interfere_def drained_def
  by (elim disjE) simp_all

lemmas after_step =
  ha_trans_interfere [OF iteration_ha_trans]

lemma tracked_unchanged:
  assumes t: "tracked s0 ins"
    and r: "responsibility (ha (after (ins @ [x]) s0)) = responsibility (ha (after ins s0))"
    and s: "responsibleSince (ha (after (ins @ [x]) s0)) = responsibleSince (ha (after ins s0))"
  shows "tracked s0 (ins @ [x])"
proof (cases "idle (ha (after ins s0))")
  case True
  with r s show ?thesis by (simp add: tracked_def idle_def)
next
  case False
  with t obtain pre j post where d: "ins = pre @ j # post" "claim_at s0 pre j"
      "responsibleSince (ha (after ins s0)) = Some (nowSince (clk j))"
    and c: "responsibility (ha (after ins s0)) = TakeoverNoSync
               \<or> responsibility (ha (after ins s0)) = stop
               \<or> (responsibility (ha (after ins s0)) = TakeoverSync
                   \<and> (\<exists>mid i post'. post = mid @ i # post'
                         \<and> promotion_at s0 (pre @ j # mid) i (nowSince (clk j))))"
    unfolding tracked_def by blast
  have d': "ins @ [x] = pre @ j # (post @ [x])" using d by simp
  from c have c': "responsibility (ha (after (ins @ [x]) s0)) = TakeoverNoSync
               \<or> responsibility (ha (after (ins @ [x]) s0)) = stop
               \<or> (responsibility (ha (after (ins @ [x]) s0)) = TakeoverSync
                   \<and> (\<exists>mid i post'. post @ [x] = mid @ i # post'
                         \<and> promotion_at s0 (pre @ j # mid) i (nowSince (clk j))))"
  proof (elim disjE conjE exE)
    fix mid i post'
    assume "responsibility (ha (after ins s0)) = TakeoverSync" "post = mid @ i # post'"
      "promotion_at s0 (pre @ j # mid) i (nowSince (clk j))"
    then have "responsibility (ha (after (ins @ [x]) s0)) = TakeoverSync
        \<and> post @ [x] = mid @ i # (post' @ [x])
        \<and> promotion_at s0 (pre @ j # mid) i (nowSince (clk j))"
      using r by simp
    then show ?thesis by blast
  qed (simp_all add: r)
  show ?thesis
    unfolding tracked_def using d' d(2,3) c' s by metis
qed

lemma tracked_step:
  assumes t: "tracked s0 ins"
  shows "tracked s0 (ins @ [x])"
proof (cases "fst (loop ins s0) = None")
  case False
  then have "after (ins @ [x]) s0 = after ins s0" by (auto simp add: after_snoc)
  then show ?thesis using tracked_unchanged [OF t] by simp
next
  case True
  let ?s = "after ins s0" and ?s' = "after (ins @ [x]) s0"
  have s': "?s' = snd (iteration (clk x) (flt x) (chn x) (interfere x ?s))"
    using True by (simp add: after_snoc)
  note step = after_step [where c = "clk x" and i = x and s = ?s and f = "flt x" and ev = "chn x",
      folded s']
  from t consider (idle) "idle (ha ?s)"
    | (held) pre j post where "ins = pre @ j # post" "claim_at s0 pre j"
        "responsibleSince (ha ?s) = Some (nowSince (clk j))"
        "responsibility (ha ?s) = TakeoverNoSync \<or> responsibility (ha ?s) = stop"
    | (sync) pre j mid i post' where "ins = pre @ j # mid @ i # post'" "claim_at s0 pre j"
        "responsibleSince (ha ?s) = Some (nowSince (clk j))"
        "responsibility (ha ?s) = TakeoverSync"
        "promotion_at s0 (pre @ j # mid) i (nowSince (clk j))"
    unfolding tracked_def by blast
  then show ?thesis
  proof cases
    case idle
    from step idle consider
      "idle (ha ?s')"
      | "responsibility (ha ?s') = TakeoverNoSync"
        "responsibleSince (ha ?s') = Some (nowSince (clk x))"
      unfolding idle_def by auto
    then show ?thesis
    proof cases
      case 1
      then show ?thesis by (simp add: tracked_def)
    next
      case 2
      with idle have "claim_at s0 ins x" by (simp add: claim_at_def)
      with 2 have "ins @ [x] = ins @ x # [] \<and> claim_at s0 ins x
           \<and> responsibleSince (ha ?s') = Some (nowSince (clk x))
           \<and> responsibility (ha ?s') = TakeoverNoSync"
        by simp
      then show ?thesis unfolding tracked_def by blast
    qed
  next
    case held
    from step held(3,4) consider
      (same) "responsibility (ha ?s') = responsibility (ha ?s)"
        "responsibleSince (ha ?s') = responsibleSince (ha ?s)"
      | (stopped) "responsibility (ha ?s') = stop"
        "responsibleSince (ha ?s') = responsibleSince (ha ?s)"
      | (promoted) "responsibility (ha ?s) = TakeoverNoSync"
        "responsibility (ha ?s') = TakeoverSync"
        "responsibleSince (ha ?s') = responsibleSince (ha ?s)"
        "5000000000 \<le> nowSince (clk x) - nowSince (clk j)"
      | (ceased) "idle (ha ?s')"
      unfolding idle_def by auto
    then show ?thesis
    proof cases
      case same
      then show ?thesis using tracked_unchanged [OF t] by simp
    next
      case stopped
      with held have "ins @ [x] = pre @ j # (post @ [x]) \<and> claim_at s0 pre j
           \<and> responsibleSince (ha ?s') = Some (nowSince (clk j))
           \<and> responsibility (ha ?s') = stop"
        by simp
      then show ?thesis unfolding tracked_def by blast
    next
      case promoted
      with held have "promotion_at s0 (pre @ j # post) x (nowSince (clk j))"
        by (simp add: promotion_at_def)
      with promoted held have "ins @ [x] = pre @ j # (post @ x # []) \<and> claim_at s0 pre j
           \<and> responsibleSince (ha ?s') = Some (nowSince (clk j))
           \<and> responsibility (ha ?s') = TakeoverSync
           \<and> post @ x # [] = post @ x # []
           \<and> promotion_at s0 (pre @ j # post) x (nowSince (clk j))"
        by simp
      then show ?thesis unfolding tracked_def by blast
    next
      case ceased
      then show ?thesis by (simp add: tracked_def)
    qed
  next
    case sync
    from step sync(3,4) consider
      (same) "responsibility (ha ?s') = responsibility (ha ?s)"
        "responsibleSince (ha ?s') = responsibleSince (ha ?s)"
      | (stopped) "responsibility (ha ?s') = stop"
        "responsibleSince (ha ?s') = responsibleSince (ha ?s)"
      by auto
    then show ?thesis
    proof cases
      case same
      then show ?thesis using tracked_unchanged [OF t] by simp
    next
      case stopped
      with sync have "ins @ [x] = pre @ j # (mid @ i # post' @ [x]) \<and> claim_at s0 pre j
           \<and> responsibleSince (ha ?s') = Some (nowSince (clk j))
           \<and> responsibility (ha ?s') = stop"
        by simp
      then show ?thesis unfolding tracked_def by blast
    qed
  qed
qed

lemma tracked_run:
  assumes "idle (ha s0)"
  shows "tracked s0 ins"
proof (induction ins rule: rev_induct)
  case Nil
  with assms show ?case by (simp add: tracked_def after_Nil)
next
  case (snoc x xs)
  then show ?case by (rule tracked_step)
qed

lemma promoted_only_after_claim:
  assumes "idle (ha s0)" and "responsibility (ha (after ins s0)) = TakeoverSync"
  shows "\<exists>pre j mid i post. ins = pre @ j # mid @ i # post
           \<and> claim_at s0 pre j
           \<and> promotion_at s0 (pre @ j # mid) i (nowSince (clk j))
           \<and> responsibleSince (ha (after ins s0)) = Some (nowSince (clk j))"
proof -
  from tracked_run [OF assms(1), of ins] assms(2)
  obtain pre j post mid i post' where "ins = pre @ j # post" "claim_at s0 pre j"
      "responsibleSince (ha (after ins s0)) = Some (nowSince (clk j))"
      "post = mid @ i # post'" "promotion_at s0 (pre @ j # mid) i (nowSince (clk j))"
    unfolding tracked_def idle_def by auto
  then have "ins = pre @ j # mid @ i # post'
           \<and> claim_at s0 pre j
           \<and> promotion_at s0 (pre @ j # mid) i (nowSince (clk j))
           \<and> responsibleSince (ha (after ins s0)) = Some (nowSince (clk j))"
    by simp
  then show ?thesis by blast
qed

lemma holding_until_drained:
  assumes "responsibility (ha s0) = TakeoverNoSync \<or> responsibility (ha s0) = TakeoverSync
           \<or> responsibility (ha s0) = stop"
  shows "responsibility (ha (after ins s0)) = TakeoverNoSync
         \<or> responsibility (ha (after ins s0)) = TakeoverSync
         \<or> responsibility (ha (after ins s0)) = stop
         \<or> (\<exists>pre i post. ins = pre @ i # post
               \<and> responsibility (ha (after pre s0)) = stop
               \<and> seenRunning i = 0
               \<and> 5 \<le> sint (nowDrained (clk i) - seenLastEnd i)
               \<and> responsibility (ha (after (pre @ [i]) s0)) = notReadyForTakeover)"
proof (induction ins rule: rev_induct)
  case Nil
  with assms show ?case by (simp add: after_Nil)
next
  case (snoc x xs)
  let ?s = "after xs s0" and ?s' = "after (xs @ [x]) s0"
  show ?case
  proof (cases "\<exists>pre i post. xs = pre @ i # post
               \<and> responsibility (ha (after pre s0)) = stop
               \<and> seenRunning i = 0
               \<and> 5 \<le> sint (nowDrained (clk i) - seenLastEnd i)
               \<and> responsibility (ha (after (pre @ [i]) s0)) = notReadyForTakeover")
    case True
    then obtain pre i post where "xs = pre @ i # post"
        "responsibility (ha (after pre s0)) = stop" "seenRunning i = 0"
        "5 \<le> sint (nowDrained (clk i) - seenLastEnd i)"
        "responsibility (ha (after (pre @ [i]) s0)) = notReadyForTakeover"
      by blast
    then have "xs @ [x] = pre @ i # (post @ [x])
        \<and> responsibility (ha (after pre s0)) = stop \<and> seenRunning i = 0
        \<and> 5 \<le> sint (nowDrained (clk i) - seenLastEnd i)
        \<and> responsibility (ha (after (pre @ [i]) s0)) = notReadyForTakeover"
      by simp
    then show ?thesis by blast
  next
    case False
    with snoc have held: "responsibility (ha ?s) = TakeoverNoSync
         \<or> responsibility (ha ?s) = TakeoverSync \<or> responsibility (ha ?s) = stop"
      by blast
    show ?thesis
    proof (cases "fst (loop xs s0) = None")
      case False
      then have "?s' = ?s" by (auto simp add: after_snoc)
      with held show ?thesis by metis
    next
      case True
      then have s': "?s' = snd (iteration (clk x) (flt x) (chn x) (interfere x ?s))"
        by (simp add: after_snoc)
      note step = after_step [where c = "clk x" and i = x and s = ?s and f = "flt x"
          and ev = "chn x", folded s']
      from step held consider
        "responsibility (ha ?s') = TakeoverNoSync \<or> responsibility (ha ?s') = TakeoverSync
           \<or> responsibility (ha ?s') = stop"
        | "responsibility (ha ?s) = stop" "seenRunning x = 0"
          "5 \<le> sint (nowDrained (clk x) - seenLastEnd x)"
          "responsibility (ha ?s') = notReadyForTakeover"
        by auto
      then show ?thesis
      proof cases
        case 1
        then show ?thesis by blast
      next
        case 2
        then have "xs @ [x] = xs @ x # []
            \<and> responsibility (ha (after xs s0)) = stop \<and> seenRunning x = 0
            \<and> 5 \<le> sint (nowDrained (clk x) - seenLastEnd x)
            \<and> responsibility (ha (after (xs @ [x]) s0)) = notReadyForTakeover"
          by simp
        then show ?thesis by blast
      qed
    qed
  qed
qed

lemmas model_defs =
  iteration_def switch_responsibility_def perform_def takeover_def cease_def await_def
  after_election_def election_def upsert_def release_def SqlTransactionQuiet_def
  sql_select_def sql_update_def sql_insert_def log_def stopping_def
  getResponsibility_def setResponsibility_def icinga2IsAlive_def interfere_def
  Seconds_def Sub_def after_def word_sless_alt word_sle_eq

lemmas ex_defs = noFaults_def exEnv_def exHA_def exState_def exClock_def exRow_def exInput_def

lemma idle_entry: "idle h \<Longrightarrow> idle (ha (entry e u now h))"
  by (simp add: entry_def idle_def log_def Icinga2HeartBeat_def Let_def)

lemma out_after_election:
  "out (snd (after_election c f j s)) =
     out s
     @ (if j \<and> responsibility (ha s) \<noteq> stop
           \<and> (case responsibleSince (ha s) of None \<Rightarrow> False
               | Some since \<Rightarrow> 5000000000 \<le> nowSince c - since)
        then (if responsibility (ha s) = TakeoverNoSync then [taking_over s] else []) @ [wakeup s]
        else [])
     @ (if j then [] else [other_responsible s])"
  by (simp add: after_election_cases split: option.splits)

lemma out_takeover:
  "out (snd (takeover c f s)) =
     (case SqlTransactionQuiet f (election f c (ha s) (env s) (theirUUID s)) (db s) of
        Inl err \<Rightarrow> out s
      | Inr (t, j, u) \<Rightarrow>
          out s
          @ (if j \<and> responsibility (ha s) \<noteq> stop
                \<and> (case responsibleSince (ha s) of None \<Rightarrow> False
                    | Some since \<Rightarrow> 5000000000 \<le> nowSince c - since)
             then (if responsibility (ha s) = TakeoverNoSync
                   then [taking_over (s\<lparr>db := t, theirUUID := u\<rparr>)] else [])
                  @ [wakeup s]
             else [])
          @ (if j then [] else [other_responsible (s\<lparr>db := t, theirUUID := u\<rparr>)]))"
  by (auto simp add: takeover_cases out_after_election wakeup_def split: sum.splits prod.splits)

lemma ha_takeover_promoted:
  "SqlTransactionQuiet f (election f c (ha s) (env s) (theirUUID s)) (db s) = Inr (t, True, u) \<Longrightarrow>
   responsibility (ha s) \<noteq> stop \<Longrightarrow> responsibleSince (ha s) = Some since \<Longrightarrow>
   5000000000 \<le> nowSince c - since \<Longrightarrow>
   responsibility (ha (snd (takeover c f s))) = TakeoverSync"
  by (simp add: takeover_cases after_election_cases)

lemma out_cease:
  "out (snd (cease c f s)) = out s
   \<or> out (snd (cease c f s)) =
       out s @ [Log Info ''Other instance is responsible. Ceasing operations.''
                  [(''context'', Text ''HA''), (''env'', Text (Name (env s)))]]"
  by (simp add: cease_cases split: sum.splits prod.splits)

lemma out_stopping:
  "out (stopping r s) = out s @ [Log Warn ''Icinga 2 detected as not running, stopping.''
                 [(''context'', Text ''HA''), (''uuid'', UUIDText (ourUUID (ha s))),
                  (''env'', Text (Name (env s)))]]"
  by (simp add: stopping_def log_def Let_def)

lemma emitted_takeover:
  "drop (length (out s)) (out (snd (takeover c f (s\<lparr>nextAction := a\<rparr>)))) = election_events c f s"
  by (simp add: out_takeover election_events_def taking_over_def other_responsible_def wakeup_def
        split: sum.splits prod.splits)

lemma out_iteration_Proceed:
  "switch_responsibility c s = (Proceed, s1) \<Longrightarrow>
   out (snd (iteration c f ev s)) = out (snd (perform c f s1))"
  by (cases "perform c f s1")
    (auto simp add: snd_iteration out_await split: prod.splits flow.splits)

lemma out_iteration_Continue:
  "switch_responsibility c s = (Continue, s1) \<Longrightarrow> out (snd (iteration c f ev s)) = out s1"
  by (simp add: snd_iteration)

lemma emitted_cases:
  "emitted c f ev s =
     (case responsibility (ha s) of
        readyForTakeover \<Rightarrow>
          if icinga2IsAlive (nowAlive c) (ha s) then election_events c f s
          else drop (length (out s)) (out (stopping notReadyForTakeover s))
      | TakeoverNoSync \<Rightarrow>
          if icinga2IsAlive (nowAlive c) (ha s) then election_events c f s
          else drop (length (out s)) (out (stopping stop s))
      | TakeoverSync \<Rightarrow>
          if icinga2IsAlive (nowAlive c) (ha s) then election_events c f s
          else drop (length (out s)) (out (stopping stop s))
      | stop \<Rightarrow>
          if drained c (ha s)
          then drop (length (out s)) (out (snd (cease c f (s\<lparr>nextAction := ceaseOperation\<rparr>))))
          else election_events c f s
      | notReadyForTakeover \<Rightarrow>
          if icinga2IsAlive (nowAlive c) (ha s)
          then [Log Info ''Icinga 2 detected as running again.''
                        [(''context'', Text ''HA''), (''uuid'', UUIDText (ourUUID (ha s))),
                         (''env'', Text (Name (env s)))]]
          else [])"
proof (cases "responsibility (ha s)")
  case readyForTakeover
  then have g: "getResponsibility (ha s) = readyForTakeover" by (simp add: getResponsibility_def)
  show ?thesis
  proof (cases "icinga2IsAlive (nowAlive c) (ha s)")
    case True
    then have "switch_responsibility c s = (Proceed, s\<lparr>nextAction := tryTakeover\<rparr>)"
      by (simp add: switch_ready [OF g])
    from out_iteration_Proceed [OF this] True show ?thesis
      using emitted_takeover [of s c f tryTakeover]
      by (simp add: emitted_def readyForTakeover perform_def)
  next
    case False
    then have "switch_responsibility c s = (Continue, stopping notReadyForTakeover s)"
      by (simp add: switch_ready [OF g])
    from out_iteration_Continue [OF this] False show ?thesis
      by (simp add: emitted_def readyForTakeover)
  qed
next
  case TakeoverNoSync
  then have g: "getResponsibility (ha s) = TakeoverNoSync" by (simp add: getResponsibility_def)
  show ?thesis
  proof (cases "icinga2IsAlive (nowAlive c) (ha s)")
    case True
    then have "switch_responsibility c s = (Proceed, s\<lparr>nextAction := tryTakeover\<rparr>)"
      by (simp add: switch_nosync [OF g])
    from out_iteration_Proceed [OF this] True show ?thesis
      using emitted_takeover [of s c f tryTakeover]
      by (simp add: emitted_def TakeoverNoSync perform_def)
  next
    case False
    then have "switch_responsibility c s = (Continue, stopping stop s)"
      by (simp add: switch_nosync [OF g])
    from out_iteration_Continue [OF this] False show ?thesis
      by (simp add: emitted_def TakeoverNoSync)
  qed
next
  case TakeoverSync
  then have g: "getResponsibility (ha s) = TakeoverSync" by (simp add: getResponsibility_def)
  show ?thesis
  proof (cases "icinga2IsAlive (nowAlive c) (ha s)")
    case True
    then have "switch_responsibility c s = (Proceed, s\<lparr>nextAction := doTakeover\<rparr>)"
      by (simp add: switch_sync [OF g])
    from out_iteration_Proceed [OF this] True show ?thesis
      using emitted_takeover [of s c f doTakeover]
      by (simp add: emitted_def TakeoverSync perform_def)
  next
    case False
    then have "switch_responsibility c s = (Continue, stopping stop s)"
      by (simp add: switch_sync [OF g])
    from out_iteration_Continue [OF this] False show ?thesis
      by (simp add: emitted_def TakeoverSync)
  qed
next
  case stop
  then have g: "getResponsibility (ha s) = stop" by (simp add: getResponsibility_def)
  show ?thesis
  proof (cases "drained c (ha s)")
    case True
    then have "switch_responsibility c s = (Proceed, s\<lparr>nextAction := ceaseOperation\<rparr>)"
      by (simp add: switch_stop [OF g] drained_def word_sle_eq)
    from out_iteration_Proceed [OF this] True show ?thesis
      by (simp add: emitted_def stop perform_def)
  next
    case False
    then have "switch_responsibility c s = (Proceed, s\<lparr>nextAction := doTakeover\<rparr>)"
      by (simp add: switch_stop [OF g] drained_def word_sle_eq)
    from out_iteration_Proceed [OF this] False show ?thesis
      using emitted_takeover [of s c f doTakeover]
      by (simp add: emitted_def stop perform_def)
  qed
next
  case notReadyForTakeover
  then have g: "getResponsibility (ha s) = notReadyForTakeover"
    by (simp add: getResponsibility_def)
  show ?thesis
  proof (cases "icinga2IsAlive (nowAlive c) (ha s)")
    case True
    then show ?thesis
      by (simp add: emitted_def snd_iteration switch_notready [OF g] notReadyForTakeover log_def)
  next
    case False
    then have "switch_responsibility c s = (Proceed, s\<lparr>nextAction := noAction\<rparr>)"
      by (simp add: switch_notready [OF g])
    from out_iteration_Proceed [OF this] False show ?thesis
      by (simp add: emitted_def notReadyForTakeover perform_def)
  qed
qed

lemma out_iteration_emitted: "out (snd (iteration c f ev s)) = out s @ emitted c f ev s"
proof -
  have "\<exists>xs. out (snd (iteration c f ev s)) = out s @ xs"
  proof (cases "switch_responsibility c s")
    case (Pair fl s1)
    have sw: "\<exists>xs. out s1 = out s @ xs"
      using Pair
      by (cases "responsibility (ha s)")
        (auto simp add: switch_responsibility_def getResponsibility_def out_stopping log_def Let_def
           split: if_splits)
    show ?thesis
    proof (cases fl)
      case Proceed
      with Pair have o: "out (snd (iteration c f ev s)) = out (snd (perform c f s1))"
        by (simp add: out_iteration_Proceed)
      have "\<exists>xs. out (snd (perform c f s1)) = out s1 @ xs"
        using out_cease [of c f s1]
        by (cases "nextAction s1") (auto simp add: perform_def out_takeover split: sum.splits)
      with sw o show ?thesis by auto
    next
      case Continue
      with Pair sw show ?thesis by (simp add: snd_iteration)
    next
      case (Return e)
      with Pair sw show ?thesis by (simp add: snd_iteration)
    qed
  qed
  then show ?thesis by (auto simp add: emitted_def)
qed

lemma publish_election_events:
  "Publish ch p \<in> set (election_events c f s) \<longleftrightarrow>
     elected c f s \<and> responsibility (ha s) \<noteq> stop
     \<and> ch = ''icingadb:wakeup'' \<and> p = UUIDText (ourUUID (ha s))"
proof (cases "SqlTransactionQuiet f (election f c (ha s) (env s) (theirUUID s)) (db s)")
  case (Inl e)
  then show ?thesis by (simp add: election_events_def elected_def)
next
  case (Inr r)
  obtain t j u where r: "r = (t, j, u)" by (cases r)
  show ?thesis
    by (cases "responsibleSince (ha s)")
      (auto simp add: election_events_def elected_def Inr r taking_over_def
         other_responsible_def wakeup_def)
qed

lemma taking_over_election_events:
  "(\<exists>fs. Log Info ''Taking over'' fs \<in> set (election_events c f s)) \<longleftrightarrow>
     elected c f s \<and> responsibility (ha s) = TakeoverNoSync"
proof (cases "SqlTransactionQuiet f (election f c (ha s) (env s) (theirUUID s)) (db s)")
  case (Inl e)
  then show ?thesis by (simp add: election_events_def elected_def)
next
  case (Inr r)
  obtain t j u where r: "r = (t, j, u)" by (cases r)
  show ?thesis
    by (cases "responsibleSince (ha s)")
      (auto simp add: election_events_def elected_def Inr r taking_over_def
         other_responsible_def wakeup_def)
qed

lemma renews_elected:
  "renews c f s \<longleftrightarrow>
     (responsibility (ha s) = readyForTakeover \<or> responsibility (ha s) = TakeoverNoSync
        \<or> responsibility (ha s) = TakeoverSync)
     \<and> icinga2IsAlive (nowAlive c) (ha s) \<and> elected c f s"
  by (simp add: renews_def elected_def)

lemma emitted_cease:
  "drop (length (out s)) (out (snd (cease c f (s\<lparr>nextAction := a\<rparr>)))) = []
    \<or> drop (length (out s)) (out (snd (cease c f (s\<lparr>nextAction := a\<rparr>))))
       = [Log Info ''Other instance is responsible. Ceasing operations.''
                  [(''context'', Text ''HA''), (''env'', Text (Name (env s)))]]"
  using out_cease [of c f "s\<lparr>nextAction := a\<rparr>"] by auto

lemma publish_emitted:
  "Publish ch p \<in> set (emitted c f ev s) \<longleftrightarrow>
      renews c f s \<and> ch = ''icingadb:wakeup'' \<and> p = UUIDText (ourUUID (ha s))"
proof (cases "responsibility (ha s)")
  case readyForTakeover
  then show ?thesis
    by (simp add: emitted_cases renews_elected publish_election_events out_stopping)
next
  case TakeoverNoSync
  then show ?thesis
    by (simp add: emitted_cases renews_elected publish_election_events out_stopping)
next
  case TakeoverSync
  then show ?thesis
    by (simp add: emitted_cases renews_elected publish_election_events out_stopping)
next
  case stop
  then show ?thesis
    using emitted_cease [of s c f ceaseOperation]
    by (auto simp add: emitted_cases renews_elected publish_election_events)
next
  case notReadyForTakeover
  then show ?thesis
    by (simp add: emitted_cases renews_elected)
qed

lemma taking_over_emitted:
  "(\<exists>fs. Log Info ''Taking over'' fs \<in> set (emitted c f ev s)) \<longleftrightarrow>
        renews c f s \<and> responsibility (ha s) = TakeoverNoSync"
proof (cases "responsibility (ha s)")
  case readyForTakeover
  then show ?thesis
    using taking_over_election_events [of c f s]
    by (simp add: emitted_cases renews_elected out_stopping)
next
  case TakeoverNoSync
  then show ?thesis
    using taking_over_election_events [of c f s]
    by (simp add: emitted_cases renews_elected out_stopping)
next
  case TakeoverSync
  then show ?thesis
    using taking_over_election_events [of c f s]
    by (simp add: emitted_cases renews_elected out_stopping)
next
  case stop
  then show ?thesis
    using emitted_cease [of s c f ceaseOperation] taking_over_election_events [of c f s]
    by (auto simp add: emitted_cases renews_elected)
next
  case notReadyForTakeover
  then show ?thesis
    by (simp add: emitted_cases renews_elected)
qed

lemma renews_promotes:
  assumes r: "renews c f s"
  shows "responsibility (ha (snd (iteration c f ev s))) = TakeoverSync"
proof -
  from r obtain t u since where
    tx: "SqlTransactionQuiet f (election f c (ha s) (env s) (theirUUID s)) (db s) = Inr (t, True, u)"
    and since: "responsibleSince (ha s) = Some since" "5000000000 \<le> nowSince c - since"
    and alive: "icinga2IsAlive (nowAlive c) (ha s)"
    and st: "responsibility (ha s) = readyForTakeover \<or> responsibility (ha s) = TakeoverNoSync
      \<or> responsibility (ha s) = TakeoverSync"
    by (auto simp add: renews_def split: sum.splits option.splits)
  have p: "responsibility (ha (snd (takeover c f (s\<lparr>nextAction := a\<rparr>)))) = TakeoverSync" for a
    using tx since st ha_takeover_promoted [of f c "s\<lparr>nextAction := a\<rparr>" t u since]
    by auto
  obtain a where sw: "switch_responsibility c s = (Proceed, s\<lparr>nextAction := a\<rparr>)"
      and a: "a = tryTakeover \<or> a = doTakeover"
    using st alive by (auto simp add: switch_responsibility_def getResponsibility_def)
  have "ha (snd (iteration c f ev s)) = ha (snd (perform c f (s\<lparr>nextAction := a\<rparr>)))"
    by (cases "perform c f (s\<lparr>nextAction := a\<rparr>)")
      (auto simp add: snd_iteration sw ha_await split: flow.splits)
  also have "perform c f (s\<lparr>nextAction := a\<rparr>) = takeover c f (s\<lparr>nextAction := a\<rparr>)"
    using a by (auto simp add: perform_def)
  finally show ?thesis by (simp add: p)
qed

lemma iteration_cease:
  assumes st: "getResponsibility (ha s) = stop"
    and dr: "runningCriticalOperations (ha s) = 0
              \<and> 5 \<le> sint (nowDrained c - lastCriticalOperationEnd (ha s))"
    and tx: "SqlTransactionQuiet f (release f (nowCease c) (ourUUID (ha s)) (env s)) (db s)
               = Inr (t, ())"
  shows "ha (snd (iteration c f ev s))
           = (ha s)\<lparr>responsibleSince := None, responsibility := notReadyForTakeover\<rparr>"
    and "db (snd (iteration c f ev s)) = t"
proof -
  from st dr have sw: "switch_responsibility c s = (Proceed, s\<lparr>nextAction := ceaseOperation\<rparr>)"
    by (simp add: switch_stop word_sle_eq)
  have ce: "perform c f (s\<lparr>nextAction := ceaseOperation\<rparr>)
     = (Proceed, s\<lparr>nextAction := ceaseOperation,
                   ha := (ha s)\<lparr>responsibleSince := None, responsibility := notReadyForTakeover\<rparr>,
                   db := t,
                   out := out s @ [Log Info ''Other instance is responsible. Ceasing operations.''
                                        [(''context'', Text ''HA''), (''env'', Text (Name (env s)))]]\<rparr>)"
    using tx by (simp add: perform_def cease_cases)
  show "ha (snd (iteration c f ev s))
           = (ha s)\<lparr>responsibleSince := None, responsibility := notReadyForTakeover\<rparr>"
    by (simp add: snd_iteration sw ce ha_await)
  show "db (snd (iteration c f ev s)) = t"
    by (simp add: snd_iteration sw ce db_await)
qed

lemma sint_Unix_diff:
  assumes "0 \<le> t0" "t0 \<le> t" "t < 2 ^ 62"
  shows "sint (Unix t - Unix t0) = t div 1000000000 - t0 div 1000000000"
proof -
  let ?a = "t div 1000000000" and ?b = "t0 div 1000000000"
  have b: "0 \<le> ?b" "?b \<le> ?a" "?a < 2 ^ 62"
  proof -
    show "0 \<le> ?b" using assms by simp
    show "?b \<le> ?a" using assms by (simp add: zdiv_mono1)
    have "?a \<le> t" using assms by (cases "t = 0") (simp_all add: int_div_le_self)
    with assms show "?a < 2 ^ 62" by simp
  qed
  have k: "sint (word_of_int k :: 64 word) = k" if "- (2 ^ 63) \<le> k" "k < 2 ^ 63" for k
    using that by (simp add: sint_sbintrunc' signed_take_bit_int_eq_self)
  from b have "- (2 ^ 63) \<le> ?a - ?b" "?a - ?b < 2 ^ 63" by simp_all
  from k [OF this] show ?thesis by (simp add: Unix_def)
qed

lemma upsert_noFaults:
  "upsert noFaults now u e tbl =
     Inr (if \<exists>r\<in>set tbl. id_col r = u
          then refreshed u (ID e) now tbl
          else tbl @ [\<lparr>id_col = u, environment_id = ID e, heartbeat = now, responsible = ''n''\<rparr>])"
  by (simp add: upsert_cases noFaults_def refreshed_def)

lemma election_noFaults:
  assumes "upsert noFaults (nowUpsert c) (ourUUID h) e T = Inr t1"
  shows "election noFaults c h e their T =
     (case filter (\<lambda>r. environment_id r = ID e \<and> responsible r = ''y'') t1 of
        [] \<Rightarrow> Inr (map (\<lambda>r. if id_col r = ourUUID h then r\<lparr>responsible := ''y''\<rparr> else r) t1,
                   True, their)
      | r0 # _ \<Rightarrow>
          if id_col r0 = ourUUID h then Inr (t1, True, id_col r0)
          else if 10 \<le> sint (nowStale c - heartbeat r0) then
            Inr (map (\<lambda>r. if id_col r = ourUUID h then r\<lparr>responsible := ''y''\<rparr> else r)
                   (map (\<lambda>r. if environment_id r = ID e then r\<lparr>responsible := ''n''\<rparr> else r) t1),
                 True, id_col r0)
          else Inr (t1, False, id_col r0))"
  unfolding election_cases assms
  by (cases "filter (\<lambda>r. environment_id r = ID e \<and> responsible r = ''y'') t1")
    (simp_all add: noFaults_def)

lemma in_refreshed:
  "r' \<in> set (refreshed u e now T) \<longleftrightarrow>
     (\<exists>r\<in>set T. r' = (if id_col r = u then r\<lparr>environment_id := e, heartbeat := now\<rparr> else r))"
  by (simp only: refreshed_def set_map image_iff)

lemma held_byD:
  assumes "held_by u e hb T"
  shows "\<exists>r\<in>set T. id_col r = u"
    and "\<And>r. r \<in> set T \<Longrightarrow> id_col r = u \<Longrightarrow>
           environment_id r = e \<and> responsible r = ''y'' \<and> heartbeat r = hb"
    and "\<And>r. r \<in> set T \<Longrightarrow> environment_id r = e \<Longrightarrow> responsible r = ''y'' \<Longrightarrow> id_col r = u"
  using assms unfolding held_by_def by blast+

lemma held_byI:
  assumes "\<exists>r\<in>set T. id_col r = u"
    and "\<And>r. r \<in> set T \<Longrightarrow> id_col r = u \<Longrightarrow>
           environment_id r = e \<and> responsible r = ''y'' \<and> heartbeat r = hb"
    and "\<And>r. r \<in> set T \<Longrightarrow> environment_id r = e \<Longrightarrow> responsible r = ''y'' \<Longrightarrow> id_col r = u"
  shows "held_by u e hb T"
  using assms unfolding held_by_def by blast

lemma held_by_refreshed_own:
  assumes h: "held_by u e hb T"
  shows "held_by u e now (refreshed u e now T)"
proof (rule held_byI)
  from held_byD(1) [OF h] obtain r where r: "r \<in> set T" "id_col r = u" by blast
  have "r\<lparr>environment_id := e, heartbeat := now\<rparr> \<in> set (refreshed u e now T)"
    unfolding in_refreshed using r by (intro bexI [of _ r]) auto
  moreover have "id_col (r\<lparr>environment_id := e, heartbeat := now\<rparr>) = u"
    using r by simp
  ultimately show "\<exists>r\<in>set (refreshed u e now T). id_col r = u" by blast
next
  fix r' assume a: "r' \<in> set (refreshed u e now T)" "id_col r' = u"
  then obtain r where r: "r \<in> set T"
      "r' = (if id_col r = u then r\<lparr>environment_id := e, heartbeat := now\<rparr> else r)"
    unfolding in_refreshed by blast
  from a r have i: "id_col r = u" by (cases "id_col r = u") simp_all
  from held_byD(2) [OF h r(1) i] r(2) i
  show "environment_id r' = e \<and> responsible r' = ''y'' \<and> heartbeat r' = now" by simp
next
  fix r' assume a: "r' \<in> set (refreshed u e now T)" "environment_id r' = e" "responsible r' = ''y''"
  then obtain r where r: "r \<in> set T"
      "r' = (if id_col r = u then r\<lparr>environment_id := e, heartbeat := now\<rparr> else r)"
    unfolding in_refreshed by blast
  show "id_col r' = u"
  proof (cases "id_col r = u")
    case True
    with r show ?thesis by simp
  next
    case False
    with r a have "environment_id r = e" "responsible r = ''y''" "r' = r" by simp_all
    with held_byD(3) [OF h r(1)] show ?thesis by simp
  qed
qed

lemma standbyD: "standby v T \<Longrightarrow> r \<in> set T \<Longrightarrow> id_col r = v \<Longrightarrow> responsible r = ''n''"
  unfolding standby_def by blast

lemma standbyI: "(\<And>r. r \<in> set T \<Longrightarrow> id_col r = v \<Longrightarrow> responsible r = ''n'') \<Longrightarrow> standby v T"
  unfolding standby_def by blast

lemma standby_refreshed:
  assumes s: "standby v T"
  shows "standby v (refreshed w e now T)"
proof (rule standbyI)
  fix r' assume a: "r' \<in> set (refreshed w e now T)" "id_col r' = v"
  then obtain r where r: "r \<in> set T"
      "r' = (if id_col r = w then r\<lparr>environment_id := e, heartbeat := now\<rparr> else r)"
    unfolding in_refreshed by blast
  from a r have "id_col r = v" by (cases "id_col r = w") simp_all
  from standbyD [OF s r(1) this] r(2) show "responsible r' = ''n''"
    by (cases "id_col r = w") simp_all
qed

lemma standby_append:
  assumes s: "standby v T" and n: "id_col x = v \<Longrightarrow> responsible x = ''n''"
  shows "standby v (T @ [x])"
proof (rule standbyI)
  fix r assume "r \<in> set (T @ [x])" "id_col r = v"
  then consider "r \<in> set T" "id_col r = v" | "r = x" "id_col x = v" by auto
  then show "responsible r = ''n''"
  proof cases
    case 1
    then show ?thesis by (rule standbyD [OF s])
  next
    case 2
    with n show ?thesis by simp
  qed
qed

lemma held_by_refreshed_peer:
  assumes h: "held_by u e hb T" and s: "standby v T" and vu: "v \<noteq> u"
  shows "held_by u e hb (refreshed v e' now T)"
proof (rule held_byI)
  from held_byD(1) [OF h] obtain r where r: "r \<in> set T" "id_col r = u" by blast
  have "r \<in> set (refreshed v e' now T)"
    unfolding in_refreshed using r vu by (intro bexI [of _ r]) auto
  with r show "\<exists>r\<in>set (refreshed v e' now T). id_col r = u" by blast
next
  fix r' assume a: "r' \<in> set (refreshed v e' now T)" "id_col r' = u"
  then obtain r where r: "r \<in> set T"
      "r' = (if id_col r = v then r\<lparr>environment_id := e', heartbeat := now\<rparr> else r)"
    unfolding in_refreshed by blast
  from a r vu have i: "id_col r \<noteq> v" "r' = r" by (cases "id_col r = v"; simp)+
  with a have "id_col r = u" by simp
  from held_byD(2) [OF h r(1) this] i
  show "environment_id r' = e \<and> responsible r' = ''y'' \<and> heartbeat r' = hb" by simp
next
  fix r' assume a: "r' \<in> set (refreshed v e' now T)" "environment_id r' = e" "responsible r' = ''y''"
  then obtain r where r: "r \<in> set T"
      "r' = (if id_col r = v then r\<lparr>environment_id := e', heartbeat := now\<rparr> else r)"
    unfolding in_refreshed by blast
  show "id_col r' = u"
  proof (cases "id_col r = v")
    case True
    from standbyD [OF s r(1) True] r(2) True a(3) show ?thesis by simp
  next
    case False
    with r a have "environment_id r = e" "responsible r = ''y''" "r' = r" by simp_all
    with held_byD(3) [OF h r(1)] show ?thesis by simp
  qed
qed

lemma held_by_append_peer:
  assumes h: "held_by u e hb T" and x: "id_col x \<noteq> u" "responsible x = ''n''"
  shows "held_by u e hb (T @ [x])"
proof (rule held_byI)
  from held_byD(1) [OF h] show "\<exists>r\<in>set (T @ [x]). id_col r = u" by auto
next
  fix r assume "r \<in> set (T @ [x])" "id_col r = u"
  with x have "r \<in> set T" "id_col r = u" by auto
  then show "environment_id r = e \<and> responsible r = ''y'' \<and> heartbeat r = hb"
    by (rule held_byD(2) [OF h])
next
  fix r assume "r \<in> set (T @ [x])" "environment_id r = e" "responsible r = ''y''"
  with x have "r \<in> set T" "environment_id r = e" "responsible r = ''y''" by auto
  then show "id_col r = u" by (rule held_byD(3) [OF h])
qed

lemma held_by_first:
  assumes vac: "vacant e T" and new: "\<forall>r\<in>set T. id_col r \<noteq> u"
  shows "held_by u e now (T @ [\<lparr>id_col = u, environment_id = e, heartbeat = now,
                                 responsible = ''y''\<rparr>])"
proof (rule held_byI)
  show "\<exists>r\<in>set (T @ [\<lparr>id_col = u, environment_id = e, heartbeat = now,
                                 responsible = ''y''\<rparr>]). id_col r = u"
    by simp
next
  fix r assume "r \<in> set (T @ [\<lparr>id_col = u, environment_id = e, heartbeat = now,
                                 responsible = ''y''\<rparr>])" "id_col r = u"
  with new have "r = \<lparr>id_col = u, environment_id = e, heartbeat = now, responsible = ''y''\<rparr>"
    by auto
  then show "environment_id r = e \<and> responsible r = ''y'' \<and> heartbeat r = now" by simp
next
  fix r assume "r \<in> set (T @ [\<lparr>id_col = u, environment_id = e, heartbeat = now,
                                 responsible = ''y''\<rparr>])"
    "environment_id r = e" "responsible r = ''y''"
  with vac have "r = \<lparr>id_col = u, environment_id = e, heartbeat = now, responsible = ''y''\<rparr>"
    unfolding vacant_def by auto
  then show "id_col r = u" by simp
qed

lemma first_responsible:
  assumes "\<exists>r\<in>set T. environment_id r = e \<and> responsible r = ''y''"
  obtains r0 rest where
    "filter (\<lambda>r. environment_id r = e \<and> responsible r = ''y'') T = r0 # rest"
    "r0 \<in> set T" "environment_id r0 = e" "responsible r0 = ''y''"
proof -
  let ?rows = "filter (\<lambda>r. environment_id r = e \<and> responsible r = ''y'') T"
  from assms have "?rows \<noteq> []" by (simp only: filter_empty_conv) blast
  then obtain r0 rest where rows: "?rows = r0 # rest" by (cases ?rows) auto
  then have "r0 \<in> set ?rows" by simp
  then have "r0 \<in> set T" "environment_id r0 = e" "responsible r0 = ''y''" by simp_all
  with rows that show thesis by blast
qed

lemma election_renew:
  assumes h: "held_by u (ID e) hb T" and u: "ourUUID h = u"
  shows "election noFaults c h e their T = Inr (refreshed u (ID e) (nowUpsert c) T, True, u)"
proof -
  let ?T1 = "refreshed u (ID e) (nowUpsert c) T"
  from held_byD(1) [OF h] have up: "upsert noFaults (nowUpsert c) (ourUUID h) e T = Inr ?T1"
    by (simp add: upsert_noFaults u)
  have hb: "held_by u (ID e) (nowUpsert c) ?T1"
    by (rule held_by_refreshed_own [OF h])
  from held_byD(1) [OF hb] obtain r where r: "r \<in> set ?T1" "id_col r = u" by blast
  from held_byD(2) [OF hb r] r(1)
  have "\<exists>r\<in>set ?T1. environment_id r = ID e \<and> responsible r = ''y''" by blast
  then obtain r0 rest where rows:
    "filter (\<lambda>r. environment_id r = ID e \<and> responsible r = ''y'') ?T1 = r0 # rest"
    "r0 \<in> set ?T1" "environment_id r0 = ID e" "responsible r0 = ''y''"
    by (rule first_responsible)
  from held_byD(3) [OF hb rows(2,3,4)] have r0: "id_col r0 = u" .
  show ?thesis
    unfolding election_noFaults [OF up] rows(1) using r0 u by simp
qed

lemma election_standby:
  assumes h: "held_by u (ID e) hb T" and s: "standby v T" and vu: "v \<noteq> u"
    and v: "ourUUID h = v" and fresh: "sint (nowStale c - hb) < 10"
  shows "\<exists>T'. election noFaults c h e their T = Inr (T', False, u)
            \<and> held_by u (ID e) hb T' \<and> standby v T'"
proof -
  let ?x = "\<lparr>id_col = v, environment_id = ID e, heartbeat = nowUpsert c, responsible = ''n''\<rparr>"
  let ?T1 = "if \<exists>r\<in>set T. id_col r = v then refreshed v (ID e) (nowUpsert c) T else T @ [?x]"
  have up: "upsert noFaults (nowUpsert c) (ourUUID h) e T = Inr ?T1"
    by (simp add: upsert_noFaults v)
  have hb: "held_by u (ID e) hb ?T1"
    using held_by_refreshed_peer [OF h s vu, of "ID e" "nowUpsert c"]
      held_by_append_peer [OF h, of ?x] vu
    by simp
  have sb: "standby v ?T1"
    using standby_refreshed [OF s, of v "ID e" "nowUpsert c"] standby_append [OF s, of ?x]
    by simp
  from held_byD(1) [OF hb] obtain r where r: "r \<in> set ?T1" "id_col r = u" by blast
  from held_byD(2) [OF hb r] r(1)
  have "\<exists>r\<in>set ?T1. environment_id r = ID e \<and> responsible r = ''y''" by blast
  then obtain r0 rest where rows:
    "filter (\<lambda>r. environment_id r = ID e \<and> responsible r = ''y'') ?T1 = r0 # rest"
    "r0 \<in> set ?T1" "environment_id r0 = ID e" "responsible r0 = ''y''"
    by (rule first_responsible)
  from held_byD(3) [OF hb rows(2,3,4)] have r0: "id_col r0 = u" .
  from held_byD(2) [OF hb rows(2) r0] have r0h: "heartbeat r0 = hb" by simp
  have "election noFaults c h e their T = Inr (?T1, False, u)"
    unfolding election_noFaults [OF up] rows(1) using r0 r0h v vu fresh by simp
  with hb sb show ?thesis by blast
qed

lemma election_first:
  assumes vac: "vacant (ID e) T" and new: "\<forall>r\<in>set T. id_col r \<noteq> u" and u: "ourUUID h = u"
  shows "election noFaults c h e their T =
           Inr (T @ [\<lparr>id_col = u, environment_id = ID e, heartbeat = nowUpsert c,
                      responsible = ''y''\<rparr>], True, their)"
proof -
  let ?T1 = "T @ [\<lparr>id_col = u, environment_id = ID e, heartbeat = nowUpsert c,
                     responsible = ''n''\<rparr>]"
  let ?T2 = "T @ [\<lparr>id_col = u, environment_id = ID e, heartbeat = nowUpsert c,
                     responsible = ''y''\<rparr>]"
  have up: "upsert noFaults (nowUpsert c) (ourUUID h) e T = Inr ?T1"
    using new by (simp add: upsert_noFaults u)
  have rows: "filter (\<lambda>r. environment_id r = ID e \<and> responsible r = ''y'') ?T1 = []"
    using vac unfolding vacant_def by (simp add: filter_empty_conv)
  have "map (\<lambda>r. if id_col r = u then r\<lparr>responsible := ''y''\<rparr> else r) T = T"
    using new by (intro map_idI) simp
  then have m: "map (\<lambda>r. if id_col r = u then r\<lparr>responsible := ''y''\<rparr> else r) ?T1 = ?T2"
    by simp
  show ?thesis
    unfolding election_noFaults [OF up] rows using m u by simp
qed

lemma tx_noFaults: "SqlTransactionQuiet noFaults body T = body T"
  by (cases "body T") (simp_all add: SqlTransactionQuiet_def noFaults_def)

lemma iteration_elects:
  assumes alive: "icinga2IsAlive (nowAlive c) (ha s)"
    and st: "responsibility (ha s) = readyForTakeover \<or> responsibility (ha s) = TakeoverNoSync
             \<or> responsibility (ha s) = TakeoverSync"
    and el: "election noFaults c (ha s) (env s) (theirUUID s) (db s) = Inr (t, j, u)"
  shows "db (snd (iteration c noFaults Tick s)) = t"
    and "env (snd (iteration c noFaults Tick s)) = env s"
    and "ha (snd (iteration c noFaults Tick s)) =
          (if j then
             (case responsibleSince (ha s) of
                None \<Rightarrow> (ha s)\<lparr>responsibleSince := Some (nowSince c),
                                  responsibility := TakeoverNoSync\<rparr>
              | Some since \<Rightarrow>
                  if 5000000000 \<le> nowSince c - since
                  then (ha s)\<lparr>responsibility := TakeoverSync\<rparr> else ha s)
           else ha s)"
proof -
  from st alive obtain a where sw: "switch_responsibility c s = (Proceed, s\<lparr>nextAction := a\<rparr>)"
      and a: "a = tryTakeover \<or> a = doTakeover"
    by (auto simp add: switch_responsibility_def getResponsibility_def)
  from a have pf: "perform c noFaults (s\<lparr>nextAction := a\<rparr>) = takeover c noFaults (s\<lparr>nextAction := a\<rparr>)"
    by (auto simp add: perform_def)
  have tk: "takeover c noFaults (s\<lparr>nextAction := a\<rparr>)
      = after_election c noFaults j (s\<lparr>nextAction := a, db := t, theirUUID := u\<rparr>)"
    using el by (simp add: takeover_cases tx_noFaults)
  have nf: "noFaults RedisPublish = None" by (simp add: noFaults_def)
  have fl: "fst (after_election c noFaults j s') = Proceed" for s'
    by (simp add: after_election_cases nf split: option.splits)
  obtain s2 where s2: "after_election c noFaults j (s\<lparr>nextAction := a, db := t, theirUUID := u\<rparr>)
      = (Proceed, s2)"
    using fl [of "s\<lparr>nextAction := a, db := t, theirUUID := u\<rparr>"]
    by (cases "after_election c noFaults j (s\<lparr>nextAction := a, db := t, theirUUID := u\<rparr>)") simp
  have it: "snd (iteration c noFaults Tick s) = s2"
    by (simp add: snd_iteration sw pf tk s2 await_def)
  from s2 have s2': "s2 = snd (after_election c noFaults j (s\<lparr>nextAction := a, db := t, theirUUID := u\<rparr>))"
    by simp
  from st have ns: "responsibility (ha s) \<noteq> stop" by auto
  show "db (snd (iteration c noFaults Tick s)) = t"
    unfolding it s2' by (simp add: after_election_cases nf split: option.splits)
  show "env (snd (iteration c noFaults Tick s)) = env s"
    unfolding it s2' by (simp add: after_election_cases nf split: option.splits)
  show "ha (snd (iteration c noFaults Tick s)) =
          (if j then
             (case responsibleSince (ha s) of
                None \<Rightarrow> (ha s)\<lparr>responsibleSince := Some (nowSince c),
                                  responsibility := TakeoverNoSync\<rparr>
              | Some since \<Rightarrow>
                  if 5000000000 \<le> nowSince c - since
                  then (ha s)\<lparr>responsibility := TakeoverSync\<rparr> else ha s)
           else ha s)"
    unfolding it s2' using ns by (simp add: after_election_cases nf split: option.splits)
qed

lemma other_other [simp]: "other (other X) = X"
  by (cases X) (simp_all add: other_def)

lemma other_neq [simp]: "other X \<noteq> X"
  by (cases X) (simp_all add: other_def)

lemma replica_state_tick:
  "replica_state X (tick X i sys) = snd (iteration (clk i) (flt i) (chn i) (ticking X i sys))"
  "replica_state (other X) (tick X i sys) = replica_state (other X) sys"
  "registry (tick X i sys) = db (snd (iteration (clk i) (flt i) (chn i) (ticking X i sys)))"
  by (cases X; simp add: tick_def ticking_def replica_state_def other_def Let_def)+

lemma ticking_simps:
  "responsibility (ha (ticking X i sys)) = responsibility (ha (replica_state X sys))"
  "responsibleSince (ha (ticking X i sys)) = responsibleSince (ha (replica_state X sys))"
  "ourUUID (ha (ticking X i sys)) = ourUUID (ha (replica_state X sys))"
  "icinga2MTime (ha (ticking X i sys)) = seenMTime i"
  "env (ticking X i sys) = env (replica_state X sys)"
  "db (ticking X i sys) = registry sys"
  by (simp_all add: ticking_def interfere_def)

lemma on_timeD:
  assumes "on_time i"
  shows "flt i = noFaults" "chn i = Tick" "nowUpsert (clk i) = Unix (nowSince (clk i))"
    "nowStale (clk i) = Unix (nowSince (clk i))"
    "icinga2IsAlive (nowAlive (clk i)) (ha (ticking X i sys))"
    "0 \<le> nowSince (clk i)" "nowSince (clk i) < 2 ^ 62"
proof -
  from assms have c: "clk i = clock_at (nowSince (clk i))" by (simp add: on_time_def timely_def)
  show "nowUpsert (clk i) = Unix (nowSince (clk i))"
    by (subst c) (simp add: clock_at_def)
  show "nowStale (clk i) = Unix (nowSince (clk i))"
    by (subst c) (simp add: clock_at_def)
  from assms show "flt i = noFaults" "chn i = Tick" "0 \<le> nowSince (clk i)"
    "nowSince (clk i) < 2 ^ 62"
    by (simp_all add: on_time_def timely_def)
  from assms show "icinga2IsAlive (nowAlive (clk i)) (ha (ticking X i sys))"
    by (simp add: on_time_def upstream_alive_def icinga2IsAlive_def ticking_simps)
qed

lemma Unix_fresh:
  assumes "0 \<le> t0" "t0 \<le> t" "t < 2 ^ 62" "t - t0 \<le> 8000000000"
  shows "sint (Unix t - Unix t0) < 10"
proof -
  from assms have "t \<le> t0 + 8000000000" by simp
  then have "t div 1000000000 \<le> (t0 + 8000000000) div 1000000000"
    by (rule zdiv_mono1) simp
  also have "\<dots> = t0 div 1000000000 + 8" by simp
  finally show ?thesis using sint_Unix_diff [OF assms(1,2,3)] by simp
qed

lemma tick_first:
  assumes c: "cold_start e sys" and ot: "on_time i"
  shows "claimed e X (nowSince (clk i)) (nowSince (clk i)) (tick X i sys)"
proof -
  let ?s = "ticking X i sys" and ?c = "clk i"
  let ?u = "ourUUID (ha (replica_state X sys))" and ?v = "ourUUID (ha (replica_state (other X) sys))"
  note o = on_timeD [OF ot]
  from c have envs: "env (replica_state X sys) = e" "env (replica_state (other X) sys) = e"
    and uv: "?u \<noteq> ?v"
    and idleX: "responsibleSince (ha (replica_state X sys)) = None"
      "responsibility (ha (replica_state X sys)) = readyForTakeover"
    and idleY: "responsibleSince (ha (replica_state (other X) sys)) = None"
      "responsibility (ha (replica_state (other X) sys)) = readyForTakeover"
    and vac: "vacant (ID e) (registry sys)"
    and new: "\<forall>r\<in>set (registry sys). id_col r \<noteq> ?u" "\<forall>r\<in>set (registry sys). id_col r \<noteq> ?v"
    by (cases X; auto simp add: cold_start_def replica_state_def other_def)+
  let ?T' = "registry sys @ [\<lparr>id_col = ?u, environment_id = ID e, heartbeat = nowUpsert ?c,
                      responsible = ''y''\<rparr>]"
  have el: "election noFaults ?c (ha ?s) (env ?s) (theirUUID ?s) (db ?s)
      = Inr (?T', True, theirUUID ?s)"
    using election_first [of e "registry sys" ?u "ha ?s" ?c "theirUUID ?s"] vac new(1)
    by (simp add: ticking_simps envs)
  have st: "responsibility (ha ?s) = readyForTakeover \<or> responsibility (ha ?s) = TakeoverNoSync
             \<or> responsibility (ha ?s) = TakeoverSync"
    by (simp add: ticking_simps idleX)
  note it = iteration_elects [OF o(5) st el]
  have hb: "held_by ?u (ID e) (Unix (nowSince ?c)) ?T'"
    using held_by_first [OF vac new(1), of "nowUpsert ?c"] by (simp add: o)
  have sb: "standby ?v ?T'"
    using new(2) uv unfolding standby_def by auto
  show ?thesis
    unfolding claimed_def replica_state_tick o(1,2)
    using it hb sb uv envs idleY
    by (simp add: ticking_simps idleX)
qed

lemma tick_holder:
  assumes c: "claimed e X t1 tX sys" and ot: "on_time i" and le: "tX \<le> nowSince (clk i)"
  shows "claimed e X t1 (nowSince (clk i)) (tick X i sys)"
proof -
  let ?s = "ticking X i sys" and ?c = "clk i"
  let ?u = "ourUUID (ha (replica_state X sys))" and ?v = "ourUUID (ha (replica_state (other X) sys))"
  note o = on_timeD [OF ot]
  from c have envs: "env (replica_state X sys) = e" "env (replica_state (other X) sys) = e"
    and uv: "?u \<noteq> ?v"
    and sX: "responsibleSince (ha (replica_state X sys)) = Some t1"
      "responsibility (ha (replica_state X sys))
         = (if 5000000000 \<le> tX - t1 then TakeoverSync else TakeoverNoSync)"
    and idleY: "responsibleSince (ha (replica_state (other X) sys)) = None"
      "responsibility (ha (replica_state (other X) sys)) = readyForTakeover"
    and hb: "held_by ?u (ID e) (Unix tX) (registry sys)"
    and sb: "standby ?v (registry sys)"
    unfolding claimed_def by simp_all
  let ?T' = "refreshed ?u (ID e) (nowUpsert ?c) (registry sys)"
  have el: "election noFaults ?c (ha ?s) (env ?s) (theirUUID ?s) (db ?s) = Inr (?T', True, ?u)"
    using election_renew [of ?u e "Unix tX" "registry sys" "ha ?s" ?c "theirUUID ?s"] hb
    by (simp add: ticking_simps envs)
  have st: "responsibility (ha ?s) = readyForTakeover \<or> responsibility (ha ?s) = TakeoverNoSync
             \<or> responsibility (ha ?s) = TakeoverSync"
    by (simp add: ticking_simps sX)
  note it = iteration_elects [OF o(5) st el]
  have hb': "held_by ?u (ID e) (Unix (nowSince ?c)) ?T'"
    using held_by_refreshed_own [OF hb, of "nowUpsert ?c"] by (simp add: o)
  have sb': "standby ?v ?T'"
    by (rule standby_refreshed [OF sb])
  show ?thesis
    unfolding claimed_def replica_state_tick o(1,2)
    using it hb' sb' uv envs idleY le
    by (simp add: ticking_simps sX)
qed

lemma tick_standby:
  assumes c: "claimed e X t1 tX sys" and ot: "on_time i"
    and le: "0 \<le> tX" "tX \<le> nowSince (clk i)" "nowSince (clk i) - tX \<le> 8000000000"
  shows "claimed e X t1 tX (tick (other X) i sys)"
proof -
  let ?s = "ticking (other X) i sys" and ?c = "clk i"
  let ?u = "ourUUID (ha (replica_state X sys))" and ?v = "ourUUID (ha (replica_state (other X) sys))"
  note o = on_timeD [OF ot]
  from c have envs: "env (replica_state X sys) = e" "env (replica_state (other X) sys) = e"
    and uv: "?u \<noteq> ?v"
    and sX: "responsibleSince (ha (replica_state X sys)) = Some t1"
      "responsibility (ha (replica_state X sys))
         = (if 5000000000 \<le> tX - t1 then TakeoverSync else TakeoverNoSync)"
    and idleY: "responsibleSince (ha (replica_state (other X) sys)) = None"
      "responsibility (ha (replica_state (other X) sys)) = readyForTakeover"
    and hb: "held_by ?u (ID e) (Unix tX) (registry sys)"
    and sb: "standby ?v (registry sys)"
    unfolding claimed_def by simp_all
  have fresh: "sint (nowStale ?c - Unix tX) < 10"
    unfolding o(4) by (rule Unix_fresh [OF le(1,2) o(7) le(3)])
  from uv have vu: "?v \<noteq> ?u" by simp
  from election_standby [OF hb sb vu _ fresh, of "ha ?s" "theirUUID ?s"]
  obtain T' where el: "election noFaults ?c (ha ?s) (env ?s) (theirUUID ?s) (db ?s)
        = Inr (T', False, ?u)"
    and hb': "held_by ?u (ID e) (Unix tX) T'" and sb': "standby ?v T'"
    by (auto simp add: ticking_simps envs)
  have st: "responsibility (ha ?s) = readyForTakeover \<or> responsibility (ha ?s) = TakeoverNoSync
             \<or> responsibility (ha ?s) = TakeoverSync"
    by (simp add: ticking_simps idleY)
  note it = iteration_elects [OF o(5) st el]
  have rs: "replica_state X (tick (other X) i sys) = replica_state X sys"
    using replica_state_tick(2) [of "other X" i sys] by simp
  have ro: "replica_state (other X) (tick (other X) i sys)
      = snd (iteration (clk i) noFaults Tick ?s)"
    using replica_state_tick(1) [of "other X" i sys] by (simp add: o(1,2))
  have rg: "registry (tick (other X) i sys) = T'"
    using replica_state_tick(3) [of "other X" i sys] it(1) by (simp add: o(1,2))
  show ?thesis
    unfolding claimed_def rs ro rg
    using it hb' sb' uv envs sX
    by (simp add: ticking_simps idleY)
qed

lemma regular_Cons:
  assumes "regular G la lb ((Z, i) # evs)"
  shows "on_time i"
    and "\<And>X t. last_of X la lb = Some t \<Longrightarrow> t \<le> nowSince (clk i) \<and> nowSince (clk i) - t \<le> G"
    and "regular G (if Z = ReplicaA then Some (nowSince (clk i)) else la)
                   (if Z = ReplicaB then Some (nowSince (clk i)) else lb) evs"
proof -
  from assms show "on_time i" by simp
  from assms have s: "spaced G la (nowSince (clk i))" "spaced G lb (nowSince (clk i))" by simp_all
  show "t \<le> nowSince (clk i) \<and> nowSince (clk i) - t \<le> G" if "last_of X la lb = Some t" for X t
    using s that by (cases X) (simp_all add: last_of_def spaced_def)
  from assms show "regular G (if Z = ReplicaA then Some (nowSince (clk i)) else la)
                   (if Z = ReplicaB then Some (nowSince (clk i)) else lb) evs"
    by (cases Z) simp_all
qed

lemma schedule_claimed:
  assumes "claimed e X t1 tX sys" and "regular G la lb evs" and "last_of X la lb = Some tX"
    and "0 \<le> tX" and "0 \<le> G" and "G \<le> 8000000000"
  shows "\<exists>tX'. claimed e X t1 tX' (schedule evs sys) \<and> tX \<le> tX'
           \<and> (evs = [] \<longrightarrow> tX' = tX)
           \<and> (evs \<noteq> [] \<longrightarrow> tX' \<le> time_of (last evs) \<and> time_of (last evs) - tX' \<le> G)"
  using assms(1,2,3,4)
proof (induction evs arbitrary: sys la lb tX)
  case Nil
  then show ?case by simp
next
  case (Cons ev evs)
  obtain Z i where ev: "ev = (Z, i)" by (cases ev)
  let ?t = "nowSince (clk i)"
  note r = regular_Cons [OF Cons.prems(2) [unfolded ev]]
  from r(2) [OF Cons.prems(3)] have t: "tX \<le> ?t" "?t - tX \<le> G" by simp_all
  let ?la = "if Z = ReplicaA then Some ?t else la" and ?lb = "if Z = ReplicaB then Some ?t else lb"
  show ?case
  proof (cases "Z = X")
    case True
    have c: "claimed e X t1 ?t (tick Z i sys)"
      unfolding True by (rule tick_holder [OF Cons.prems(1) r(1) t(1)])
    have l: "last_of X ?la ?lb = Some ?t"
      using True by (cases X) (simp_all add: last_of_def)
    from t Cons.prems(4) have nn: "0 \<le> ?t" by simp
    from Cons.IH [OF c r(3) l nn]
    obtain tX' where i: "claimed e X t1 tX' (schedule evs (tick Z i sys))" "?t \<le> tX'"
        "evs = [] \<longrightarrow> tX' = ?t"
        "evs \<noteq> [] \<longrightarrow> tX' \<le> time_of (last evs) \<and> time_of (last evs) - tX' \<le> G"
      by blast
    have "claimed e X t1 tX' (schedule (ev # evs) sys) \<and> tX \<le> tX'
           \<and> (ev # evs = [] \<longrightarrow> tX' = tX)
           \<and> (ev # evs \<noteq> [] \<longrightarrow> tX' \<le> time_of (last (ev # evs))
                 \<and> time_of (last (ev # evs)) - tX' \<le> G)"
      using i t assms(5) by (cases "evs = []") (simp_all add: ev time_of_def)
    then show ?thesis by blast
  next
    case False
    then have Z: "Z = other X" by (cases Z; cases X) (simp_all add: other_def)
    from t assms(6) have "?t - tX \<le> 8000000000" by simp
    then have c: "claimed e X t1 tX (tick Z i sys)"
      unfolding Z using tick_standby [OF Cons.prems(1) r(1) Cons.prems(4) t(1)] by simp
    have l: "last_of X ?la ?lb = Some tX"
      using False Cons.prems(3) by (cases X; cases Z) (simp_all add: last_of_def)
    from Cons.IH [OF c r(3) l Cons.prems(4)]
    obtain tX' where i: "claimed e X t1 tX' (schedule evs (tick Z i sys))" "tX \<le> tX'"
        "evs = [] \<longrightarrow> tX' = tX"
        "evs \<noteq> [] \<longrightarrow> tX' \<le> time_of (last evs) \<and> time_of (last evs) - tX' \<le> G"
      by blast
    have "claimed e X t1 tX' (schedule (ev # evs) sys) \<and> tX \<le> tX'
           \<and> (ev # evs = [] \<longrightarrow> tX' = tX)
           \<and> (ev # evs \<noteq> [] \<longrightarrow> tX' \<le> time_of (last (ev # evs))
                 \<and> time_of (last (ev # evs)) - tX' \<le> G)"
      using i t by (cases "evs = []") (simp_all add: ev time_of_def)
    then show ?thesis by blast
  qed
qed

lemma claimed_outcome:
  assumes c: "claimed e X t1 tX sys"
  shows "\<not> (IsResponsible (ha (repA sys)) \<and> IsResponsible (ha (repB sys)))"
    and "one_incumbent e (registry sys)"
    and "5000000000 \<le> tX - t1 \<Longrightarrow> exactly_one sys"
proof -
  from c have Y: "responsibility (ha (replica_state (other X) sys)) = readyForTakeover"
    and X: "responsibility (ha (replica_state X sys))
         = (if 5000000000 \<le> tX - t1 then TakeoverSync else TakeoverNoSync)"
    and hb: "held_by (ourUUID (ha (replica_state X sys))) (ID e) (Unix tX) (registry sys)"
    unfolding claimed_def by simp_all
  from Y show "\<not> (IsResponsible (ha (repA sys)) \<and> IsResponsible (ha (repB sys)))"
    by (cases X) (simp_all add: IsResponsible_def getResponsibility_def replica_state_def other_def)
  from X Y show "exactly_one sys" if "5000000000 \<le> tX - t1"
    using that
    by (cases X)
      (simp_all add: exactly_one_def IsResponsible_def getResponsibility_def replica_state_def
         other_def)
  show "one_incumbent e (registry sys)"
    unfolding one_incumbent_def using held_byD(3) [OF hb] by simp
qed

lemma regular_iff: "regular G la lb evs \<longleftrightarrow> all_alive evs \<and> all_spaced G la lb evs"
proof (induction evs arbitrary: la lb)
  case Nil
  show ?case by simp
next
  case (Cons ev evs)
  obtain X i where ev: "ev = (X, i)" by (cases ev)
  show ?case
    unfolding ev using Cons.IH by (cases X) (auto simp add: on_time_def)
qed

lemmas system_defs = tick_def replica_state_def clock_at_def Unix_def entry_def zeroHA_def
  Icinga2HeartBeat_def exTick_def exBusy_def exSystem_def

lemmas schedule_defs = on_time_def timely_def upstream_alive_def spaced_def time_of_def

lemma upsert_own_heartbeat:
  assumes "upsert f now u e tbl = Inr t1" and "r \<in> set t1" and "id_col r = u"
  shows "heartbeat r = now"
proof (cases "\<exists>r\<in>set tbl. id_col r = u")
  case True
  with assms(1) have
    "t1 = map (\<lambda>r. if id_col r = u then r\<lparr>environment_id := ID e, heartbeat := now\<rparr> else r) tbl"
    by (simp add: upsert_cases split: option.splits)
  with assms(2) obtain r0 where r0: "r0 \<in> set tbl"
      "r = (if id_col r0 = u then r0\<lparr>environment_id := ID e, heartbeat := now\<rparr> else r0)"
    by (auto simp add: image_iff)
  with assms(3) show ?thesis by (cases "id_col r0 = u") simp_all
next
  case False
  with assms(1) have
    "t1 = tbl @ [\<lparr>id_col = u, environment_id = ID e, heartbeat = now, responsible = ''n''\<rparr>]"
    by (simp add: upsert_cases split: option.splits)
  with assms(2,3) False
  have "r = \<lparr>id_col = u, environment_id = ID e, heartbeat = now, responsible = ''n''\<rparr>"
    by auto
  then show ?thesis by (metis icingadb_instance.select_convs(3))
qed

lemma own_row_fresh:
  assumes "nowStale c = nowUpsert c"
    and "upsert f (nowUpsert c) (ourUUID h) e tbl = Inr t1"
    and "r \<in> set t1" and "id_col r = ourUUID h"
  shows "\<not> 10 \<le> sint (nowStale c - heartbeat r)"
  using upsert_own_heartbeat [OF assms(2,3,4)] assms(1) by simp

lemma run_after:
  "run (Some e) (u, None) now ins h =
     (fst (loop ins (entry e u now h)), ha (after ins (entry e u now h)),
      out (after ins (entry e u now h)))"
  by (simp add: run_def after_def split: prod.splits)

lemma run_promoted:
  assumes i: "idle h"
    and r: "responsibility (fst (snd (run first newRandom now ins h))) = TakeoverSync"
  shows "\<exists>e pre j mid i post. first = Some e \<and> snd newRandom = None
           \<and> ins = pre @ j # mid @ i # post
           \<and> claim_at (entry e (fst newRandom) now h) pre j
           \<and> promotion_at (entry e (fst newRandom) now h) (pre @ j # mid) i (nowSince (clk j))"
proof (cases first)
  case None
  with i r show ?thesis by (simp add: run_def idle_def)
next
  case (Some e)
  obtain u err where nr: "newRandom = (u, err)" by (cases newRandom)
  show ?thesis
  proof (cases err)
    case (Some x)
    with i r \<open>first = Some e\<close> nr show ?thesis by (auto simp add: run_def idle_def)
  next
    case None
    with r \<open>first = Some e\<close> nr
    have "responsibility (ha (after ins (entry e u now h))) = TakeoverSync"
      by (simp add: run_after)
    from promoted_only_after_claim [OF idle_entry [OF i] this]
    obtain pre j mid i post where "ins = pre @ j # mid @ i # post"
        "claim_at (entry e u now h) pre j"
        "promotion_at (entry e u now h) (pre @ j # mid) i (nowSince (clk j))"
      by blast
    with \<open>first = Some e\<close> nr None
    have "first = Some e \<and> snd newRandom = None
           \<and> ins = pre @ j # mid @ i # post
           \<and> claim_at (entry e (fst newRandom) now h) pre j
           \<and> promotion_at (entry e (fst newRandom) now h) (pre @ j # mid) i (nowSince (clk j))"
      by simp
    then show ?thesis by blast
  qed
qed

section \<open>The liveness transitions\<close>

text \<open>
  Claim C7. Upstream is alive when the reading of the clock minus the last upstream heartbeat,
  as signed 64-bit numbers, is less than 15. In one iteration of the loop: from
  \<open>readyForTakeover\<close> with upstream not alive the responsibility becomes
  \<open>notReadyForTakeover\<close>; from \<open>TakeoverNoSync\<close> or \<open>TakeoverSync\<close> with upstream not alive it
  becomes \<open>stop\<close>; from \<open>notReadyForTakeover\<close> with upstream alive it becomes
  \<open>readyForTakeover\<close> (each time the loop continues at once, nothing else of \<open>HA\<close> changes);
  from \<open>notReadyForTakeover\<close> with upstream not alive the action is \<open>noAction\<close> and neither
  \<open>HA\<close>, nor the table, nor the output changes.
\<close>

theorem liveness_transitions:
  "(icinga2IsAlive (nowAlive c) (ha s) \<longleftrightarrow> sint (nowAlive c - icinga2MTime (ha s)) < 15)
   \<and> (getResponsibility (ha s) = readyForTakeover \<and> \<not> icinga2IsAlive (nowAlive c) (ha s) \<longrightarrow>
        fst (iteration c f ev s) = Continue
        \<and> ha (snd (iteration c f ev s)) = (ha s)\<lparr>responsibility := notReadyForTakeover\<rparr>)
   \<and> ((getResponsibility (ha s) = TakeoverNoSync \<or> getResponsibility (ha s) = TakeoverSync)
        \<and> \<not> icinga2IsAlive (nowAlive c) (ha s) \<longrightarrow>
        fst (iteration c f ev s) = Continue
        \<and> ha (snd (iteration c f ev s)) = (ha s)\<lparr>responsibility := stop\<rparr>)
   \<and> (getResponsibility (ha s) = notReadyForTakeover \<and> icinga2IsAlive (nowAlive c) (ha s) \<longrightarrow>
        fst (iteration c f ev s) = Continue
        \<and> ha (snd (iteration c f ev s)) = (ha s)\<lparr>responsibility := readyForTakeover\<rparr>)
   \<and> (getResponsibility (ha s) = notReadyForTakeover \<and> \<not> icinga2IsAlive (nowAlive c) (ha s) \<longrightarrow>
        nextAction (snd (switch_responsibility c s)) = noAction
        \<and> nextAction (snd (iteration c f ev s)) = noAction
        \<and> ha (snd (iteration c f ev s)) = ha s
        \<and> db (snd (iteration c f ev s)) = db s
        \<and> out (snd (iteration c f ev s)) = out s)"
proof (intro conjI impI)
  show "icinga2IsAlive (nowAlive c) (ha s) \<longleftrightarrow> sint (nowAlive c - icinga2MTime (ha s)) < 15"
    by (simp add: icinga2IsAlive_def word_sless_alt)
next
  assume a: "getResponsibility (ha s) = readyForTakeover \<and> \<not> icinga2IsAlive (nowAlive c) (ha s)"
  then have sw: "switch_responsibility c s = (Continue, stopping notReadyForTakeover s)"
    by (simp add: switch_ready)
  then have it: "iteration c f ev s = (Continue, stopping notReadyForTakeover s)"
    using iteration_Continue [of c s f ev] by simp
  show "fst (iteration c f ev s) = Continue" by (simp add: it)
  show "ha (snd (iteration c f ev s)) = (ha s)\<lparr>responsibility := notReadyForTakeover\<rparr>"
    by (simp add: it ha_stopping)
next
  assume a: "(getResponsibility (ha s) = TakeoverNoSync \<or> getResponsibility (ha s) = TakeoverSync)
        \<and> \<not> icinga2IsAlive (nowAlive c) (ha s)"
  then have sw: "switch_responsibility c s = (Continue, stopping stop s)"
    by (auto simp add: switch_nosync switch_sync)
  then have it: "iteration c f ev s = (Continue, stopping stop s)"
    using iteration_Continue [of c s f ev] by simp
  show "fst (iteration c f ev s) = Continue" by (simp add: it)
  show "ha (snd (iteration c f ev s)) = (ha s)\<lparr>responsibility := stop\<rparr>"
    by (simp add: it ha_stopping)
next
  assume a: "getResponsibility (ha s) = notReadyForTakeover \<and> icinga2IsAlive (nowAlive c) (ha s)"
  then have sw: "fst (switch_responsibility c s) = Continue"
     and h: "ha (snd (switch_responsibility c s)) = (ha s)\<lparr>responsibility := readyForTakeover\<rparr>"
    by (simp_all add: switch_notready)
  from sw have it: "iteration c f ev s = switch_responsibility c s"
    by (rule iteration_Continue)
  show "fst (iteration c f ev s) = Continue" by (simp add: it sw)
  show "ha (snd (iteration c f ev s)) = (ha s)\<lparr>responsibility := readyForTakeover\<rparr>"
    by (simp add: it h)
next
  assume a: "getResponsibility (ha s) = notReadyForTakeover \<and> \<not> icinga2IsAlive (nowAlive c) (ha s)"
  then have sw: "switch_responsibility c s = (Proceed, s\<lparr>nextAction := noAction\<rparr>)"
    by (simp add: switch_notready)
  then have it: "iteration c f ev s = await ev (s\<lparr>nextAction := noAction\<rparr>)"
    by (cases "await ev (s\<lparr>nextAction := noAction\<rparr>)") (simp add: iteration_def perform_def split: flow.splits)
  show "nextAction (snd (switch_responsibility c s)) = noAction" by (simp add: sw)
  show "nextAction (snd (iteration c f ev s)) = noAction" by (simp add: it nextAction_await)
  show "ha (snd (iteration c f ev s)) = ha s" by (simp add: it ha_await)
  show "db (snd (iteration c f ev s)) = db s" by (simp add: it db_await)
  show "out (snd (iteration c f ev s)) = out s" by (simp add: it out_await)
qed

theorem liveness_transitions_witness:
  "getResponsibility (ha (exState readyForTakeover None [])) = readyForTakeover
   \<and> \<not> icinga2IsAlive (nowAlive (exClock 120 0)) (ha (exState readyForTakeover None []))
   \<and> fst (iteration (exClock 120 0) noFaults Tick (exState readyForTakeover None [])) = Continue
   \<and> responsibility (ha (snd (iteration (exClock 120 0) noFaults Tick
         (exState readyForTakeover None [])))) = notReadyForTakeover
   \<and> responsibility (ha (snd (iteration (exClock 120 0) noFaults Tick
         (exState TakeoverNoSync (Some 0) [])))) = stop
   \<and> responsibility (ha (snd (iteration (exClock 120 0) noFaults Tick
         (exState TakeoverSync (Some 0) [])))) = stop
   \<and> icinga2IsAlive (nowAlive (exClock 101 0)) (ha (exState notReadyForTakeover None []))
   \<and> responsibility (ha (snd (iteration (exClock 101 0) noFaults Tick
         (exState notReadyForTakeover None [])))) = readyForTakeover
   \<and> nextAction (snd (iteration (exClock 120 0) noFaults Tick
         (exState notReadyForTakeover None []))) = noAction
   \<and> ha (snd (iteration (exClock 120 0) noFaults Tick (exState notReadyForTakeover None [])))
       = ha (exState notReadyForTakeover None [])"
  using liveness_transitions [of "exClock 120 0" "exState readyForTakeover None []" noFaults Tick]
    liveness_transitions [of "exClock 120 0" "exState TakeoverNoSync (Some 0) []" noFaults Tick]
    liveness_transitions [of "exClock 120 0" "exState TakeoverSync (Some 0) []" noFaults Tick]
    liveness_transitions [of "exClock 101 0" "exState notReadyForTakeover None []" noFaults Tick]
    liveness_transitions [of "exClock 120 0" "exState notReadyForTakeover None []" noFaults Tick]
  by (simp add: exState_def exHA_def exClock_def getResponsibility_def)

section \<open>The gate of critical operations\<close>

text \<open>
  Claim C8. Under \<open>TakeoverSync\<close> or \<open>stop\<close>, \<open>RunCriticalOperation\<close> invokes \<open>op\<close> with the
  counter incremented, then stores the completion time and takes the increment back, and
  returns what \<open>op\<close> returned; under every other responsibility it returns \<open>nil\<close> and leaves
  \<open>HA\<close> and the world of \<open>op\<close> as they were. It never changes the responsibility.
\<close>

theorem RunCriticalOperation_gate:
  "(getResponsibility h = TakeoverSync \<or> getResponsibility h = stop \<longrightarrow>
      RunCriticalOperation now op h w =
        (fst (op (h\<lparr>runningCriticalOperations := runningCriticalOperations h + 1\<rparr>) w),
         h\<lparr>lastCriticalOperationEnd := now\<rparr>,
         snd (op (h\<lparr>runningCriticalOperations := runningCriticalOperations h + 1\<rparr>) w)))
   \<and> (getResponsibility h \<noteq> TakeoverSync \<and> getResponsibility h \<noteq> stop \<longrightarrow>
      RunCriticalOperation now op h w = (None, h, w))
   \<and> responsibility (fst (snd (RunCriticalOperation now op h w))) = responsibility h
   \<and> runningCriticalOperations (fst (snd (RunCriticalOperation now op h w)))
       = runningCriticalOperations h"
  by (simp add: RunCriticalOperation_def Let_def split: prod.splits)

theorem RunCriticalOperation_gate_witness:
  "getResponsibility (exHA TakeoverSync (Some 0)) = TakeoverSync
   \<and> RunCriticalOperation 50 exOp (exHA TakeoverSync (Some 0)) 0
       = (Some ''failed'', (exHA TakeoverSync (Some 0))\<lparr>lastCriticalOperationEnd := 50\<rparr>, 1)
   \<and> getResponsibility (exHA readyForTakeover None) \<noteq> TakeoverSync
   \<and> getResponsibility (exHA readyForTakeover None) \<noteq> stop
   \<and> RunCriticalOperation 50 exOp (exHA readyForTakeover None) 0
       = (None, exHA readyForTakeover None, 0)"
  using RunCriticalOperation_gate [of "exHA TakeoverSync (Some 0)" 50 exOp 0]
    RunCriticalOperation_gate [of "exHA readyForTakeover None" 50 exOp 0]
  by (simp add: exHA_def exOp_def getResponsibility_def)

section \<open>The upsert\<close>

text \<open>
  Claim C9. When a row with the own id exists, the upsert rewrites, in the rows with that id,
  the columns \<open>environment_id\<close> and \<open>heartbeat\<close> only, and leaves every other row as it is;
  when none exists, it appends a row for this replica with \<open>responsible = 'n'\<close>. It fails
  only where one of its three statements fails.
\<close>

theorem upsert_frame:
  "(case upsert f now u e tbl of
      Inl err \<Rightarrow> f SelectById = Some err \<or> f UpdateById = Some err \<or> f InsertInstance = Some err
    | Inr t \<Rightarrow>
        if \<exists>r\<in>set tbl. id_col r = u then
          length t = length tbl
          \<and> (\<forall>i<length tbl.
                if id_col (tbl ! i) = u
                then t ! i = (tbl ! i)\<lparr>environment_id := ID e, heartbeat := now\<rparr>
                     \<and> responsible (t ! i) = responsible (tbl ! i)
                     \<and> id_col (t ! i) = u
                else t ! i = tbl ! i)
        else
          t = tbl @ [\<lparr>id_col = u, environment_id = ID e, heartbeat = now, responsible = ''n''\<rparr>])
   \<and> (f SelectById = None \<and> f UpdateById = None \<and> f InsertInstance = None \<longrightarrow>
        (\<exists>t. upsert f now u e tbl = Inr t))"
  by (auto simp add: upsert_cases split: option.splits)

theorem upsert_frame_witness:
  "upsert noFaults 7 1 exEnv [exRow 2 5 ''y'', exRow 1 3 ''y'']
     = Inr [exRow 2 5 ''y'', exRow 1 7 ''y'']
   \<and> upsert noFaults 7 1 exEnv [exRow 2 5 ''y'']
     = Inr [exRow 2 5 ''y'', exRow 1 7 ''n'']"
  using upsert_frame [where f = noFaults and now = 7 and u = 1 and e = exEnv
      and tbl = "[exRow 2 5 ''y'', exRow 1 3 ''y'']"]
    upsert_frame [where f = noFaults and now = 7 and u = 1 and e = exEnv
      and tbl = "[exRow 2 5 ''y'']"]
  by (auto simp add: noFaults_def exEnv_def exRow_def nth_Cons' list_eq_iff_nth_eq
        split: sum.splits if_splits)

section \<open>The election\<close>

text \<open>
  Claim C2. The election closure fails only where one of its statements fails, and with no
  failing statement it yields a result. When it yields one, let \<open>t1\<close> be the table after the
  upsert and \<open>rows\<close> its rows of the environment marked \<open>'y'\<close>. Then \<open>justTakenOver\<close> is true
  exactly when (a) \<open>rows\<close> is empty, or (b) the first of them is the own row, or (c) the reading
  of the clock minus the heartbeat of the first of them, as signed 64-bit numbers, is at
  least 10. The closure writes no column but \<open>responsible\<close>, and the own row exists at its
  end. In case (a) the rows with the own id end marked \<open>'y'\<close> and no other row changes; in
  case (b) nothing changes; in case (c), the first row being a peer's, the rows with the own
  id end marked \<open>'y'\<close>, every other row of the environment \<open>'n'\<close>, and the rows of other
  environments do not change; in the remaining case \<open>justTakenOver\<close> is false and nothing
  changes.
\<close>

theorem election_decision:
  "(case election f c h e their tbl of
      Inl err \<Rightarrow> \<exists>x. f x = Some err
    | Inr (t, justTakenOver, their') \<Rightarrow>
        (\<exists>t1. upsert f (nowUpsert c) (ourUUID h) e tbl = Inr t1
          \<and> (let rows = filter (\<lambda>r. environment_id r = ID e \<and> responsible r = ''y'') t1 in
              (justTakenOver \<longleftrightarrow>
                 rows = []
                 \<or> (rows \<noteq> [] \<and> id_col (hd rows) = ourUUID h)
                 \<or> (rows \<noteq> [] \<and> 10 \<le> sint (nowStale c - heartbeat (hd rows))))
              \<and> length t = length t1
              \<and> (\<forall>i<length t1. id_col (t ! i) = id_col (t1 ! i)
                     \<and> environment_id (t ! i) = environment_id (t1 ! i)
                     \<and> heartbeat (t ! i) = heartbeat (t1 ! i))
              \<and> (\<exists>r\<in>set t. id_col r = ourUUID h)
              \<and> (if rows = [] then
                    (\<forall>i<length t1. responsible (t ! i) =
                        (if id_col (t1 ! i) = ourUUID h then ''y'' else responsible (t1 ! i)))
                  else if id_col (hd rows) = ourUUID h then t = t1
                  else if 10 \<le> sint (nowStale c - heartbeat (hd rows)) then
                    (\<forall>i<length t1. responsible (t ! i) =
                        (if id_col (t1 ! i) = ourUUID h then ''y''
                         else if environment_id (t1 ! i) = ID e then ''n''
                         else responsible (t1 ! i)))
                  else \<not> justTakenOver \<and> t = t1))))
   \<and> ((\<forall>x. f x = None) \<longrightarrow> (\<exists>r. election f c h e their tbl = Inr r))
   \<and> (nowStale c = nowUpsert c \<longrightarrow>
        (\<forall>t1. upsert f (nowUpsert c) (ourUUID h) e tbl = Inr t1 \<longrightarrow>
           (\<forall>r\<in>set t1. id_col r = ourUUID h \<longrightarrow>
              \<not> 10 \<le> sint (nowStale c - heartbeat r))))"
proof (intro conjI impI)
  show "\<forall>t1. upsert f (nowUpsert c) (ourUUID h) e tbl = Inr t1 \<longrightarrow>
           (\<forall>r\<in>set t1. id_col r = ourUUID h \<longrightarrow>
              \<not> 10 \<le> sint (nowStale c - heartbeat r))"
    if "nowStale c = nowUpsert c"
    using own_row_fresh [OF that] by blast
next
  show "\<exists>r. election f c h e their tbl = Inr r" if nofault: "\<forall>x. f x = None"
  proof -
    from nofault have "\<exists>t1. upsert f (nowUpsert c) (ourUUID h) e tbl = Inr t1"
      by (simp add: upsert_cases)
    then obtain t1 where t1: "upsert f (nowUpsert c) (ourUUID h) e tbl = Inr t1"
      by blast
    show ?thesis
    proof (cases "filter (\<lambda>r. environment_id r = ID e \<and> responsible r = ''y'') t1")
      case Nil
      with t1 nofault show ?thesis by (auto simp add: election_cases)
    next
      case (Cons r0 rest)
      with t1 nofault show ?thesis by (auto simp add: election_cases)
    qed
  qed
next
  show "case election f c h e their tbl of
      Inl err \<Rightarrow> \<exists>x. f x = Some err
    | Inr (t, justTakenOver, their') \<Rightarrow>
        (\<exists>t1. upsert f (nowUpsert c) (ourUUID h) e tbl = Inr t1
          \<and> (let rows = filter (\<lambda>r. environment_id r = ID e \<and> responsible r = ''y'') t1 in
              (justTakenOver \<longleftrightarrow>
                 rows = []
                 \<or> (rows \<noteq> [] \<and> id_col (hd rows) = ourUUID h)
                 \<or> (rows \<noteq> [] \<and> 10 \<le> sint (nowStale c - heartbeat (hd rows))))
              \<and> length t = length t1
              \<and> (\<forall>i<length t1. id_col (t ! i) = id_col (t1 ! i)
                     \<and> environment_id (t ! i) = environment_id (t1 ! i)
                     \<and> heartbeat (t ! i) = heartbeat (t1 ! i))
              \<and> (\<exists>r\<in>set t. id_col r = ourUUID h)
              \<and> (if rows = [] then
                    (\<forall>i<length t1. responsible (t ! i) =
                        (if id_col (t1 ! i) = ourUUID h then ''y'' else responsible (t1 ! i)))
                  else if id_col (hd rows) = ourUUID h then t = t1
                  else if 10 \<le> sint (nowStale c - heartbeat (hd rows)) then
                    (\<forall>i<length t1. responsible (t ! i) =
                        (if id_col (t1 ! i) = ourUUID h then ''y''
                         else if environment_id (t1 ! i) = ID e then ''n''
                         else responsible (t1 ! i)))
                  else \<not> justTakenOver \<and> t = t1)))"
  proof (cases "upsert f (nowUpsert c) (ourUUID h) e tbl")
    case (Inl err)
    then have "\<exists>x. f x = Some err"
      by (auto simp add: upsert_cases split: option.splits if_splits)
    with Inl show ?thesis by (simp add: election_cases)
  next
    case (Inr t1)
    note own = upsert_has_own_row [OF Inr]
    show ?thesis
    proof (cases "f SelectResponsible")
      case (Some err)
      with Inr show ?thesis by (auto simp add: election_cases)
    next
      case None
      show ?thesis
      proof (cases "filter (\<lambda>r. environment_id r = ID e \<and> responsible r = ''y'') t1")
        case Nil
        show ?thesis
        proof (cases "f UpdateResponsibleVacant")
          case (Some err)
          with Inr None Nil show ?thesis by (auto simp add: election_cases)
        next
          case vac: None
          let ?g = "\<lambda>r. if id_col r = ourUUID h then r\<lparr>responsible := ''y''\<rparr> else r"
          have el: "election f c h e their tbl = Inr (map ?g t1, True, their)"
            using Inr None Nil vac by (simp add: election_cases)
          have ex: "\<exists>r\<in>set (map ?g t1). id_col r = ourUUID h"
            using own by (intro ex_own_map) auto
          show ?thesis
            using ex by (simp add: el Inr Nil del: set_map)
        qed
      next
        case (Cons r0 rest)
        then have hd: "hd (filter (\<lambda>r. environment_id r = ID e \<and> responsible r = ''y'') t1) = r0"
          by simp
        consider (own) "id_col r0 = ourUUID h"
          | (stale) "id_col r0 \<noteq> ourUUID h" "10 \<le> sint (nowStale c - heartbeat r0)"
          | (fresh) "id_col r0 \<noteq> ourUUID h" "\<not> 10 \<le> sint (nowStale c - heartbeat r0)"
          by blast
        then show ?thesis
        proof cases
          case own
          have el: "election f c h e their tbl = Inr (t1, True, id_col r0)"
            using Inr None Cons own by (simp add: election_cases)
          have ex: "\<exists>r\<in>set t1. id_col r = ourUUID h"
            using \<open>\<exists>r\<in>set t1. id_col r = ourUUID h \<and> _\<close> by blast
          show ?thesis
            using ex own by (simp add: el Inr Cons)
        next
          case fresh
          have el: "election f c h e their tbl = Inr (t1, False, id_col r0)"
            using Inr None Cons fresh by (simp add: election_cases)
          have ex: "\<exists>r\<in>set t1. id_col r = ourUUID h"
            using \<open>\<exists>r\<in>set t1. id_col r = ourUUID h \<and> _\<close> by blast
          show ?thesis
            using ex fresh by (simp add: el Inr Cons)
        next
          case stale
          show ?thesis
          proof (cases "f UpdateByEnvironment = None \<and> f UpdateResponsibleStale = None")
            case False
            then have "\<exists>err. election f c h e their tbl = Inl err
                          \<and> (f UpdateByEnvironment = Some err \<or> f UpdateResponsibleStale = Some err)"
              using Inr None Cons stale by (auto simp add: election_cases split: option.splits)
            then show ?thesis by auto
          next
            case True
            let ?g = "\<lambda>r. if id_col r = ourUUID h then r\<lparr>responsible := ''y''\<rparr> else r"
            let ?n = "\<lambda>r. if environment_id r = ID e then r\<lparr>responsible := ''n''\<rparr> else r"
            have el: "election f c h e their tbl = Inr (map ?g (map ?n t1), True, id_col r0)"
              using Inr None Cons stale True by (simp add: election_cases)
            have "\<exists>r\<in>set (map ?n t1). id_col r = ourUUID h"
              using \<open>\<exists>r\<in>set t1. id_col r = ourUUID h \<and> _\<close> by (intro ex_own_map) auto
            then have ex: "\<exists>r\<in>set (map ?g (map ?n t1)). id_col r = ourUUID h"
              by (intro ex_own_map) auto
            show ?thesis
              using ex stale by (simp add: el Inr Cons del: set_map map_map)
          qed
        qed
      qed
    qed
  qed
qed

theorem election_decision_witness:
  "(\<forall>x. noFaults x = None)
   \<and> election noFaults (exClock 20 0) (exHA readyForTakeover None) exEnv 0 []
     = Inr ([exRow 1 20 ''y''], True, 0)
   \<and> election noFaults (exClock 20 0) (exHA readyForTakeover None) exEnv 0 [exRow 1 3 ''y'']
     = Inr ([exRow 1 20 ''y''], True, 1)
   \<and> election noFaults (exClock 20 0) (exHA readyForTakeover None) exEnv 0 [exRow 2 10 ''y'']
     = Inr ([exRow 2 10 ''n'', exRow 1 20 ''y''], True, 2)
   \<and> election noFaults (exClock 20 0) (exHA readyForTakeover None) exEnv 0 [exRow 2 11 ''y'']
     = Inr ([exRow 2 11 ''y'', exRow 1 20 ''n''], False, 2)"
  using election_decision [where f = noFaults and c = "exClock 20 0"
      and h = "exHA readyForTakeover None" and e = exEnv and their = 0 and tbl = "[]"]
    election_decision [where f = noFaults and c = "exClock 20 0"
      and h = "exHA readyForTakeover None" and e = exEnv and their = 0
      and tbl = "[exRow 1 3 ''y'']"]
    election_decision [where f = noFaults and c = "exClock 20 0"
      and h = "exHA readyForTakeover None" and e = exEnv and their = 0
      and tbl = "[exRow 2 10 ''y'']"]
    election_decision [where f = noFaults and c = "exClock 20 0"
      and h = "exHA readyForTakeover None" and e = exEnv and their = 0
      and tbl = "[exRow 2 11 ''y'']"]
  by (simp add: election_cases upsert_cases noFaults_def exEnv_def exRow_def exHA_def exClock_def)

section \<open>The release\<close>

text \<open>
  Claim C6. \<open>ceaseOperation\<close> changes the table only if some row of the environment is marked
  \<open>'n'\<close> with a heartbeat less than 10 seconds old; then, and only then, it marks the rows
  with the own id \<open>'n'\<close>. It changes no other row and no other column, whichever statements
  fail.
\<close>

theorem cease_no_orphan:
  "(db (snd (cease c f s)) \<noteq> db s \<longrightarrow>
      (\<exists>r\<in>set (db s). environment_id r = ID (env s) \<and> responsible r = ''n''
          \<and> sint (nowCease c) - sint (heartbeat r) < 10))
   \<and> length (db (snd (cease c f s))) = length (db s)
   \<and> (\<forall>i<length (db s).
         db (snd (cease c f s)) ! i = db s ! i
         \<or> (id_col (db s ! i) = ourUUID (ha s)
             \<and> db (snd (cease c f s)) ! i = (db s ! i)\<lparr>responsible := ''n''\<rparr>))
   \<and> ((\<forall>x. f x = None)
        \<and> (\<exists>r\<in>set (db s). environment_id r = ID (env s) \<and> responsible r = ''n''
              \<and> sint (nowCease c) - sint (heartbeat r) < 10) \<longrightarrow>
        (\<forall>i<length (db s). id_col (db s ! i) = ourUUID (ha s) \<longrightarrow>
           responsible (db (snd (cease c f s)) ! i) = ''n''))"
  by (auto simp add: cease_cases tx_release_cases split: option.splits)

theorem cease_no_orphan_witness:
  "(\<forall>x. noFaults x = None)
   \<and> db (snd (cease (exClock 100 0) noFaults
        (exState stop (Some 0) [exRow 1 95 ''y'', exRow 2 91 ''n''])))
       = [exRow 1 95 ''n'', exRow 2 91 ''n'']
   \<and> db (snd (cease (exClock 100 0) noFaults
        (exState stop (Some 0) [exRow 1 95 ''y'', exRow 2 90 ''n''])))
       = [exRow 1 95 ''y'', exRow 2 90 ''n'']"
  using cease_no_orphan [where f = noFaults and c = "exClock 100 0"
      and s = "exState stop (Some 0) [exRow 1 95 ''y'', exRow 2 91 ''n'']"]
    cease_no_orphan [where f = noFaults and c = "exClock 100 0"
      and s = "exState stop (Some 0) [exRow 1 95 ''y'', exRow 2 90 ''n'']"]
  by (simp add: cease_cases tx_release_cases noFaults_def exEnv_def exRow_def exHA_def exClock_def exState_def)

section \<open>The drain before the release\<close>

text \<open>
  Claim C4. In \<open>stop\<close> the next action is \<open>ceaseOperation\<close> exactly when no critical operation
  is running and the reading of the clock minus the end of the last one, as signed 64-bit
  numbers, is at least 5; otherwise it is \<open>doTakeover\<close>, and the iteration leaves the
  responsibility at \<open>stop\<close>. An iteration that starts in \<open>TakeoverSync\<close> does not end in
  \<open>notReadyForTakeover\<close>. On every run of the loop from \<open>TakeoverSync\<close> or \<open>stop\<close> that
  reaches \<open>notReadyForTakeover\<close>, some iteration started in \<open>stop\<close>, met a counter of zero
  and a last end at least 5 seconds old, and ended in \<open>notReadyForTakeover\<close>.
\<close>

theorem stop_waits_for_drain:
  "(getResponsibility (ha s) = stop \<longrightarrow>
      switch_responsibility c s =
        (Proceed, s\<lparr>nextAction :=
           (if runningCriticalOperations (ha s) = 0
               \<and> 5 \<le> sint (nowDrained c - lastCriticalOperationEnd (ha s))
            then ceaseOperation else doTakeover)\<rparr>))
   \<and> (getResponsibility (ha s) = stop
        \<and> \<not> (runningCriticalOperations (ha s) = 0
               \<and> 5 \<le> sint (nowDrained c - lastCriticalOperationEnd (ha s))) \<longrightarrow>
        responsibility (ha (snd (iteration c f ev s))) = stop)
   \<and> (getResponsibility (ha s) = TakeoverSync \<longrightarrow>
        responsibility (ha (snd (iteration c f ev s))) \<noteq> notReadyForTakeover)
   \<and> ((getResponsibility (ha s) = TakeoverSync \<or> getResponsibility (ha s) = stop)
        \<and> responsibility (ha (after ins s)) = notReadyForTakeover \<longrightarrow>
        (\<exists>pre i post. ins = pre @ i # post
            \<and> responsibility (ha (after pre s)) = stop
            \<and> seenRunning i = 0
            \<and> 5 \<le> sint (nowDrained (clk i) - seenLastEnd i)
            \<and> responsibility (ha (after (pre @ [i]) s)) = notReadyForTakeover))"
proof (intro conjI impI)
  assume "getResponsibility (ha s) = stop"
  then show "switch_responsibility c s =
        (Proceed, s\<lparr>nextAction :=
           (if runningCriticalOperations (ha s) = 0
               \<and> 5 \<le> sint (nowDrained c - lastCriticalOperationEnd (ha s))
            then ceaseOperation else doTakeover)\<rparr>)"
    by (simp add: switch_stop word_sle_eq)
next
  assume a: "getResponsibility (ha s) = stop
        \<and> \<not> (runningCriticalOperations (ha s) = 0
               \<and> 5 \<le> sint (nowDrained c - lastCriticalOperationEnd (ha s)))"
  with iteration_ha_trans [of c s f ev]
  show "responsibility (ha (snd (iteration c f ev s))) = stop"
    by (auto simp add: ha_trans_def drained_def getResponsibility_def)
next
  assume a: "getResponsibility (ha s) = TakeoverSync"
  with iteration_ha_trans [of c s f ev]
  show "responsibility (ha (snd (iteration c f ev s))) \<noteq> notReadyForTakeover"
    by (auto simp add: ha_trans_def getResponsibility_def)
next
  assume a: "(getResponsibility (ha s) = TakeoverSync \<or> getResponsibility (ha s) = stop)
        \<and> responsibility (ha (after ins s)) = notReadyForTakeover"
  then have "responsibility (ha s) = TakeoverNoSync \<or> responsibility (ha s) = TakeoverSync
           \<or> responsibility (ha s) = stop"
    by (auto simp add: getResponsibility_def)
  from holding_until_drained [OF this, of ins] a
  show "\<exists>pre i post. ins = pre @ i # post
            \<and> responsibility (ha (after pre s)) = stop
            \<and> seenRunning i = 0
            \<and> 5 \<le> sint (nowDrained (clk i) - seenLastEnd i)
            \<and> responsibility (ha (after (pre @ [i]) s)) = notReadyForTakeover"
    by simp
qed

theorem stop_waits_for_drain_witness:
  "getResponsibility (ha (exState stop (Some 0) [])) = stop
   \<and> nextAction (snd (switch_responsibility (exClock 73 0) (exState stop (Some 0) [])))
       = ceaseOperation
   \<and> nextAction (snd (switch_responsibility (exClock 4 0) (exState stop (Some 0) [])))
       = doTakeover
   \<and> responsibility (ha (snd (iteration (exClock 4 0) noFaults Tick (exState stop (Some 0) []))))
       = stop
   \<and> getResponsibility (ha (exState TakeoverSync (Some 0) [])) = TakeoverSync
   \<and> responsibility (ha (after
         [exInput 65 0 49 2 0 [exRow 1 64 ''y''],
          exInput 65 0 49 2 0 [exRow 1 64 ''y''],
          exInput 70 0 49 0 68 [exRow 1 65 ''y''],
          exInput 73 0 49 0 68 [exRow 1 70 ''y'']]
         (exState TakeoverSync (Some 0) []))) = notReadyForTakeover
   \<and> (\<exists>pre i post.
         [exInput 65 0 49 2 0 [exRow 1 64 ''y''],
          exInput 65 0 49 2 0 [exRow 1 64 ''y''],
          exInput 70 0 49 0 68 [exRow 1 65 ''y''],
          exInput 73 0 49 0 68 [exRow 1 70 ''y'']] = pre @ i # post
         \<and> responsibility (ha (after pre (exState TakeoverSync (Some 0) []))) = stop
         \<and> seenRunning i = 0
         \<and> 5 \<le> sint (nowDrained (clk i) - seenLastEnd i))"
proof -
  have e: "responsibility (ha (after
         [exInput 65 0 49 2 0 [exRow 1 64 ''y''],
          exInput 65 0 49 2 0 [exRow 1 64 ''y''],
          exInput 70 0 49 0 68 [exRow 1 65 ''y''],
          exInput 73 0 49 0 68 [exRow 1 70 ''y'']]
         (exState TakeoverSync (Some 0) []))) = notReadyForTakeover"
    by (simp add: model_defs ex_defs)
  have g: "getResponsibility (ha (exState TakeoverSync (Some 0) [])) = TakeoverSync"
    "getResponsibility (ha (exState stop (Some 0) [])) = stop"
    by (simp_all add: getResponsibility_def ex_defs)
  have d: "runningCriticalOperations (ha (exState stop (Some 0) [])) = 0
      \<and> 5 \<le> sint (nowDrained (exClock 73 0) - lastCriticalOperationEnd (ha (exState stop (Some 0) [])))"
    "\<not> (runningCriticalOperations (ha (exState stop (Some 0) [])) = 0
      \<and> 5 \<le> sint (nowDrained (exClock 4 0) - lastCriticalOperationEnd (ha (exState stop (Some 0) []))))"
    by (simp_all add: ex_defs)
  show ?thesis
    using stop_waits_for_drain [where s = "exState stop (Some 0) []" and c = "exClock 73 0"
        and f = noFaults and ev = Tick and ins = "[]"]
      stop_waits_for_drain [where s = "exState stop (Some 0) []" and c = "exClock 4 0"
        and f = noFaults and ev = Tick and ins = "[]"]
      stop_waits_for_drain [where s = "exState TakeoverSync (Some 0) []" and c = "exClock 4 0"
        and f = noFaults and ev = Tick and ins = "[exInput 65 0 49 2 0 [exRow 1 64 ''y''],
          exInput 65 0 49 2 0 [exRow 1 64 ''y''],
          exInput 70 0 49 0 68 [exRow 1 65 ''y''],
          exInput 73 0 49 0 68 [exRow 1 70 ''y'']]"]
      e g d
    by simp blast
qed

section \<open>The confirmation window\<close>

text \<open>
  Claim C3. An iteration ends in \<open>TakeoverSync\<close> only if it started there, or if
  \<open>responsibleSince\<close> was set and lies at least 5 seconds (\<open>5 * 10^9\<close> nanoseconds) before the
  reading of the clock; it does not change \<open>responsibleSince\<close> then. An iteration that finds
  \<open>responsibleSince\<close> unset and leaves it set has done nothing to \<open>HA\<close> but set it to the
  reading of the clock and the responsibility to \<open>TakeoverNoSync\<close>, and this is what a
  successful election outside \<open>stop\<close> does when \<open>responsibleSince\<close> is unset. On every run
  of \<open>HA.run\<close> from an \<open>HA\<close> value that holds nothing, a run that is in \<open>TakeoverSync\<close> has an
  earlier iteration \<open>j\<close> that started idle and ended in \<open>TakeoverNoSync\<close> with
  \<open>responsibleSince\<close> the reading of \<open>j\<close>, and a later iteration \<open>i\<close> that went from
  \<open>TakeoverNoSync\<close> to \<open>TakeoverSync\<close> with a reading at least 5 seconds after that of \<open>j\<close>.
\<close>

theorem confirmation_window:
  "(responsibility (ha (snd (iteration c f ev s))) = TakeoverSync \<longrightarrow>
      responsibility (ha s) = TakeoverSync
      \<or> (\<exists>since. responsibleSince (ha s) = Some since
            \<and> 5000000000 \<le> nowSince c - since
            \<and> 5 \<le> Seconds (Sub (nowSince c) since)
            \<and> responsibleSince (ha (snd (iteration c f ev s))) = Some since))
   \<and> (responsibleSince (ha s) = None
        \<and> responsibleSince (ha (snd (iteration c f ev s))) \<noteq> None \<longrightarrow>
        ha (snd (iteration c f ev s))
          = (ha s)\<lparr>responsibleSince := Some (nowSince c), responsibility := TakeoverNoSync\<rparr>)
   \<and> (responsibleSince (ha s) = None \<and> getResponsibility (ha s) \<noteq> stop \<longrightarrow>
        after_election c f True s
          = (Proceed, s\<lparr>ha := (ha s)\<lparr>responsibleSince := Some (nowSince c),
                                       responsibility := TakeoverNoSync\<rparr>\<rparr>))
   \<and> (idle h
        \<and> responsibility (fst (snd (run first newRandom now ins h))) = TakeoverSync \<longrightarrow>
        (\<exists>e pre j mid i post. first = Some e \<and> snd newRandom = None
           \<and> ins = pre @ j # mid @ i # post
           \<and> claim_at (entry e (fst newRandom) now h) pre j
           \<and> promotion_at (entry e (fst newRandom) now h) (pre @ j # mid) i
                 (nowSince (clk j))))"
proof (intro conjI impI)
  assume a: "responsibility (ha (snd (iteration c f ev s))) = TakeoverSync"
  with iteration_ha_trans [of c s f ev]
  show "responsibility (ha s) = TakeoverSync
      \<or> (\<exists>since. responsibleSince (ha s) = Some since
            \<and> 5000000000 \<le> nowSince c - since
            \<and> 5 \<le> Seconds (Sub (nowSince c) since)
            \<and> responsibleSince (ha (snd (iteration c f ev s))) = Some since)"
    unfolding ha_trans_def by (elim disjE) (auto simp add: Seconds_Sub_ge_5)
next
  assume a: "responsibleSince (ha s) = None
        \<and> responsibleSince (ha (snd (iteration c f ev s))) \<noteq> None"
  with iteration_ha_trans [of c s f ev]
  show "ha (snd (iteration c f ev s))
          = (ha s)\<lparr>responsibleSince := Some (nowSince c), responsibility := TakeoverNoSync\<rparr>"
    unfolding ha_trans_def by (elim disjE) auto
next
  assume "responsibleSince (ha s) = None \<and> getResponsibility (ha s) \<noteq> stop"
  then show "after_election c f True s
          = (Proceed, s\<lparr>ha := (ha s)\<lparr>responsibleSince := Some (nowSince c),
                                       responsibility := TakeoverNoSync\<rparr>\<rparr>)"
    by (simp add: after_election_cases getResponsibility_def)
next
  assume a: "idle h
        \<and> responsibility (fst (snd (run first newRandom now ins h))) = TakeoverSync"
  then show "\<exists>e pre j mid i post. first = Some e \<and> snd newRandom = None
           \<and> ins = pre @ j # mid @ i # post
           \<and> claim_at (entry e (fst newRandom) now h) pre j
           \<and> promotion_at (entry e (fst newRandom) now h) (pre @ j # mid) i
                 (nowSince (clk j))"
    using run_promoted [of h first newRandom now ins] by blast
qed

theorem confirmation_window_witness:
  "idle zeroHA
   \<and> responsibility (fst (snd (run (Some exEnv) (7, None) 1
        [exInput 2 2000000000 1 0 0 [], exInput 7 7000000000 1 0 0 [exRow 7 2 ''y'']]
        zeroHA))) = TakeoverSync
   \<and> responsibility (fst (snd (run (Some exEnv) (7, None) 1
        [exInput 2 2000000000 1 0 0 [], exInput 6 6999999999 1 0 0 [exRow 7 2 ''y'']]
        zeroHA))) = TakeoverNoSync
   \<and> (\<exists>pre j mid i post.
        [exInput 2 2000000000 1 0 0 [], exInput 7 7000000000 1 0 0 [exRow 7 2 ''y'']]
          = pre @ j # mid @ i # post
        \<and> claim_at (entry exEnv 7 1 zeroHA) pre j
        \<and> promotion_at (entry exEnv 7 1 zeroHA) (pre @ j # mid) i (nowSince (clk j)))"
proof -
  have i: "idle zeroHA" by (simp add: idle_def zeroHA_def)
  have e: "responsibility (fst (snd (run (Some exEnv) (7, None) 1
        [exInput 2 2000000000 1 0 0 [], exInput 7 7000000000 1 0 0 [exRow 7 2 ''y'']]
        zeroHA))) = TakeoverSync"
    unfolding run_after
    by (simp add: model_defs ex_defs entry_def zeroHA_def Icinga2HeartBeat_def)
  have n: "responsibility (fst (snd (run (Some exEnv) (7, None) 1
        [exInput 2 2000000000 1 0 0 [], exInput 6 6999999999 1 0 0 [exRow 7 2 ''y'']]
        zeroHA))) = TakeoverNoSync"
    unfolding run_after
    by (simp add: model_defs ex_defs entry_def zeroHA_def Icinga2HeartBeat_def)
  show ?thesis
    using confirmation_window [where h = zeroHA and first = "Some exEnv"
        and newRandom = "(7, None)" and now = 1
        and ins = "[exInput 2 2000000000 1 0 0 [], exInput 7 7000000000 1 0 0 [exRow 7 2 ''y'']]"
        and c = "exClock 0 0" and f = noFaults and ev = Tick
        and s = "entry exEnv 7 1 zeroHA"]
      i e n
    by auto
qed

section \<open>The wakeup\<close>

text \<open>
  Claim C5, as the code has it. An iteration publishes exactly when it runs the election
  (from \<open>readyForTakeover\<close>, \<open>TakeoverNoSync\<close> or \<open>TakeoverSync\<close>, upstream alive), the
  transaction commits with \<open>justTakenOver\<close>, and \<open>responsibleSince\<close> is set and at least 5
  seconds old; what it publishes is the own UUID as text, on the channel \<open>icingadb:wakeup\<close>.
  Such an iteration ends in \<open>TakeoverSync\<close>; it logs \<open>Taking over\<close> exactly when it started in
  \<open>TakeoverNoSync\<close>. So the wakeup is published on the promotion and again on every later
  iteration that renews the claim.
\<close>

theorem wakeup_published:
  "(Publish ch p \<in> set (emitted c f ev s) \<longleftrightarrow>
      renews c f s \<and> ch = ''icingadb:wakeup'' \<and> p = UUIDText (ourUUID (ha s)))
   \<and> (renews c f s \<longrightarrow> responsibility (ha (snd (iteration c f ev s))) = TakeoverSync)
   \<and> ((\<exists>fs. Log Info ''Taking over'' fs \<in> set (emitted c f ev s)) \<longleftrightarrow>
        renews c f s \<and> responsibility (ha s) = TakeoverNoSync)
   \<and> out (snd (iteration c f ev s)) = out s @ emitted c f ev s"
  using publish_emitted [of ch p c f ev s] renews_promotes [of c f s ev]
    taking_over_emitted [of c f ev s] out_iteration_emitted [of c f ev s]
  by blast

theorem wakeup_published_witness:
  "renews (exClock 100 10000000000) noFaults (exState TakeoverNoSync (Some 0) [exRow 1 99 ''y''])
   \<and> Publish ''icingadb:wakeup'' (UUIDText 1)
        \<in> set (emitted (exClock 100 10000000000) noFaults Tick
                 (exState TakeoverNoSync (Some 0) [exRow 1 99 ''y'']))
   \<and> responsibility (ha (snd (iteration (exClock 100 10000000000) noFaults Tick
        (exState TakeoverNoSync (Some 0) [exRow 1 99 ''y''])))) = TakeoverSync
   \<and> \<not> renews (exClock 100 4000000000) noFaults (exState TakeoverNoSync (Some 0) [exRow 1 99 ''y''])
   \<and> Publish ''icingadb:wakeup'' (UUIDText 1)
        \<notin> set (emitted (exClock 100 4000000000) noFaults Tick
                 (exState TakeoverNoSync (Some 0) [exRow 1 99 ''y'']))"
proof -
  have r: "renews (exClock 100 10000000000) noFaults
             (exState TakeoverNoSync (Some 0) [exRow 1 99 ''y''])"
    "\<not> renews (exClock 100 4000000000) noFaults
             (exState TakeoverNoSync (Some 0) [exRow 1 99 ''y''])"
    by (simp_all add: renews_def model_defs ex_defs)
  have u: "ourUUID (ha (exState TakeoverNoSync (Some 0) [exRow 1 99 ''y''])) = 1"
    by (simp add: ex_defs)
  show ?thesis
    using wakeup_published [where c = "exClock 100 10000000000" and f = noFaults and ev = Tick
        and s = "exState TakeoverNoSync (Some 0) [exRow 1 99 ''y'']"
        and ch = "''icingadb:wakeup''" and p = "UUIDText 1"]
      wakeup_published [where c = "exClock 100 4000000000" and f = noFaults and ev = Tick
        and s = "exState TakeoverNoSync (Some 0) [exRow 1 99 ''y'']"
        and ch = "''icingadb:wakeup''" and p = "UUIDText 1"]
      r u
    by simp
qed

text \<open>
  Claim C5 as stated fails: an iteration that starts and ends in \<open>TakeoverSync\<close> publishes
  the wakeup, and the channel is \<open>icingadb:wakeup\<close>.
\<close>

theorem wakeup_republished:
  "responsibility (ha (exState TakeoverSync (Some 0) [exRow 1 99 ''y''])) = TakeoverSync
   \<and> responsibility (ha (snd (iteration (exClock 100 10000000000) noFaults Tick
        (exState TakeoverSync (Some 0) [exRow 1 99 ''y''])))) = TakeoverSync
   \<and> emitted (exClock 100 10000000000) noFaults Tick
        (exState TakeoverSync (Some 0) [exRow 1 99 ''y''])
       = [Publish ''icingadb:wakeup'' (UUIDText 1)]"
  by (simp add: emitted_def model_defs ex_defs)

section \<open>The release resets the window\<close>

text \<open>
  Claim C10. When \<open>ceaseOperation\<close> runs and its transaction commits, whatever table it
  leaves, the iteration ends with \<open>responsibleSince\<close> unset and the responsibility
  \<open>notReadyForTakeover\<close>; with no fresh peer the transaction commits and leaves the table as
  it was. On every run of the loop from there, whatever the table holds, a state in
  \<open>TakeoverSync\<close> has an earlier iteration that claimed anew (from idle to \<open>TakeoverNoSync\<close>,
  \<open>responsibleSince\<close> its reading) and a later one that went from \<open>TakeoverNoSync\<close> to
  \<open>TakeoverSync\<close> at least 5 seconds after it.
\<close>

theorem cease_resets_window:
  "(getResponsibility (ha s) = stop
      \<and> runningCriticalOperations (ha s) = 0
      \<and> 5 \<le> sint (nowDrained c - lastCriticalOperationEnd (ha s))
      \<and> SqlTransactionQuiet f (release f (nowCease c) (ourUUID (ha s)) (env s)) (db s)
          = Inr (t, ()) \<longrightarrow>
      ha (snd (iteration c f ev s))
        = (ha s)\<lparr>responsibleSince := None, responsibility := notReadyForTakeover\<rparr>
      \<and> db (snd (iteration c f ev s)) = t
      \<and> (responsibility (ha (after ins (snd (iteration c f ev s)))) = TakeoverSync \<longrightarrow>
          (\<exists>pre j mid i post. ins = pre @ j # mid @ i # post
             \<and> claim_at (snd (iteration c f ev s)) pre j
             \<and> promotion_at (snd (iteration c f ev s)) (pre @ j # mid) i (nowSince (clk j)))))
   \<and> (f SelectFreshOthers = None \<and> f Commit = None
        \<and> \<not> (\<exists>r\<in>set (db s). environment_id r = ID (env s) \<and> responsible r = ''n''
                \<and> sint (nowCease c) - sint (heartbeat r) < 10) \<longrightarrow>
        SqlTransactionQuiet f (release f (nowCease c) (ourUUID (ha s)) (env s)) (db s)
          = Inr (db s, ()))"
proof (intro conjI impI)
  assume a: "getResponsibility (ha s) = stop
      \<and> runningCriticalOperations (ha s) = 0
      \<and> 5 \<le> sint (nowDrained c - lastCriticalOperationEnd (ha s))
      \<and> SqlTransactionQuiet f (release f (nowCease c) (ourUUID (ha s)) (env s)) (db s)
          = Inr (t, ())"
  then have h: "ha (snd (iteration c f ev s))
        = (ha s)\<lparr>responsibleSince := None, responsibility := notReadyForTakeover\<rparr>"
    and d: "db (snd (iteration c f ev s)) = t"
    using iteration_cease [of s c f t ev] by simp_all
  from h show "ha (snd (iteration c f ev s))
        = (ha s)\<lparr>responsibleSince := None, responsibility := notReadyForTakeover\<rparr>" .
  from d show "db (snd (iteration c f ev s)) = t" .
  from h have i: "idle (ha (snd (iteration c f ev s)))" by (simp add: idle_def)
  assume "responsibility (ha (after ins (snd (iteration c f ev s)))) = TakeoverSync"
  from promoted_only_after_claim [OF i this]
  show "\<exists>pre j mid i post. ins = pre @ j # mid @ i # post
             \<and> claim_at (snd (iteration c f ev s)) pre j
             \<and> promotion_at (snd (iteration c f ev s)) (pre @ j # mid) i (nowSince (clk j))"
    by blast
next
  assume "f SelectFreshOthers = None \<and> f Commit = None
        \<and> \<not> (\<exists>r\<in>set (db s). environment_id r = ID (env s) \<and> responsible r = ''n''
                \<and> sint (nowCease c) - sint (heartbeat r) < 10)"
  then show "SqlTransactionQuiet f (release f (nowCease c) (ourUUID (ha s)) (env s)) (db s)
          = Inr (db s, ())"
    by (auto simp add: tx_release_cases)
qed

theorem cease_resets_window_witness:
  "getResponsibility (ha (exState stop (Some 0) [exRow 1 95 ''y''])) = stop
   \<and> SqlTransactionQuiet noFaults (release noFaults (nowCease (exClock 100 0)) 1 exEnv)
        [exRow 1 95 ''y''] = Inr ([exRow 1 95 ''y''], ())
   \<and> ha (snd (iteration (exClock 100 0) noFaults Tick (exState stop (Some 0) [exRow 1 95 ''y''])))
       = exHA notReadyForTakeover None
   \<and> db (snd (iteration (exClock 100 0) noFaults Tick (exState stop (Some 0) [exRow 1 95 ''y''])))
       = [exRow 1 95 ''y'']
   \<and> responsibility (ha (after
         [exInput 200 200000000000 199 0 0 [exRow 1 95 ''y''],
          exInput 200 200000000000 199 0 0 [exRow 1 95 ''y''],
          exInput 204 204000000000 199 0 0 [exRow 1 200 ''y''],
          exInput 205 205000000000 199 0 0 [exRow 1 204 ''y'']]
         (snd (iteration (exClock 100 0) noFaults Tick
                (exState stop (Some 0) [exRow 1 95 ''y'']))))) = TakeoverSync
   \<and> responsibility (ha (after
         [exInput 200 200000000000 199 0 0 [exRow 1 95 ''y''],
          exInput 200 200000000000 199 0 0 [exRow 1 95 ''y''],
          exInput 204 204000000000 199 0 0 [exRow 1 200 ''y'']]
         (snd (iteration (exClock 100 0) noFaults Tick
                (exState stop (Some 0) [exRow 1 95 ''y'']))))) = TakeoverNoSync
   \<and> (\<exists>pre j mid i post.
         [exInput 200 200000000000 199 0 0 [exRow 1 95 ''y''],
          exInput 200 200000000000 199 0 0 [exRow 1 95 ''y''],
          exInput 204 204000000000 199 0 0 [exRow 1 200 ''y''],
          exInput 205 205000000000 199 0 0 [exRow 1 204 ''y'']] = pre @ j # mid @ i # post
         \<and> claim_at (snd (iteration (exClock 100 0) noFaults Tick
                (exState stop (Some 0) [exRow 1 95 ''y'']))) pre j
         \<and> promotion_at (snd (iteration (exClock 100 0) noFaults Tick
                (exState stop (Some 0) [exRow 1 95 ''y'']))) (pre @ j # mid) i (nowSince (clk j)))"
proof -
  let ?s = "exState stop (Some 0) [exRow 1 95 ''y'']"
  have g: "getResponsibility (ha ?s) = stop"
    "runningCriticalOperations (ha ?s) = 0"
    "5 \<le> sint (nowDrained (exClock 100 0) - lastCriticalOperationEnd (ha ?s))"
    "ourUUID (ha ?s) = 1" "env ?s = exEnv" "db ?s = [exRow 1 95 ''y'']"
    "(ha ?s)\<lparr>responsibleSince := None, responsibility := notReadyForTakeover\<rparr>
       = exHA notReadyForTakeover None"
    by (simp_all add: getResponsibility_def ex_defs)
  have tx: "SqlTransactionQuiet noFaults (release noFaults (nowCease (exClock 100 0)) 1 exEnv)
        [exRow 1 95 ''y''] = Inr ([exRow 1 95 ''y''], ())"
    by (simp add: model_defs ex_defs)
  have e: "responsibility (ha (after
         [exInput 200 200000000000 199 0 0 [exRow 1 95 ''y''],
          exInput 200 200000000000 199 0 0 [exRow 1 95 ''y''],
          exInput 204 204000000000 199 0 0 [exRow 1 200 ''y''],
          exInput 205 205000000000 199 0 0 [exRow 1 204 ''y'']]
         (snd (iteration (exClock 100 0) noFaults Tick ?s)))) = TakeoverSync"
    by (simp add: model_defs ex_defs)
  have n: "responsibility (ha (after
         [exInput 200 200000000000 199 0 0 [exRow 1 95 ''y''],
          exInput 200 200000000000 199 0 0 [exRow 1 95 ''y''],
          exInput 204 204000000000 199 0 0 [exRow 1 200 ''y'']]
         (snd (iteration (exClock 100 0) noFaults Tick ?s)))) = TakeoverNoSync"
    by (simp add: model_defs ex_defs)
  show ?thesis
    using cease_resets_window [where s = ?s and c = "exClock 100 0" and f = noFaults
        and ev = Tick and t = "[exRow 1 95 ''y'']"
        and ins = "[exInput 200 200000000000 199 0 0 [exRow 1 95 ''y''],
          exInput 200 200000000000 199 0 0 [exRow 1 95 ''y''],
          exInput 204 204000000000 199 0 0 [exRow 1 200 ''y''],
          exInput 205 205000000000 199 0 0 [exRow 1 204 ''y'']]"]
      g tx e n
    by simp
qed

section \<open>Two replicas: mutual exclusion\<close>

text \<open>
  Claim C1, as the code has it. Take two replicas from a cold start and a schedule of their
  iterations, in any order and at any instants, either replica starting at any time, such
  that every iteration finds upstream alive and every replica that has started has run
  within the last \<open>G\<close>, for a \<open>G\<close> of at most 8 seconds: then neither an upstream heartbeat nor
  a heartbeat in the table is ever stale. At no point of such a schedule are both replicas
  in \<open>TakeoverSync\<close>, and the rows of the environment marked \<open>'y'\<close> all have one id. Once the
  schedule spans 5 seconds and \<open>G\<close> (6 seconds at the controller's tick of one second, and at
  most 11 seconds for every \<open>G\<close> up to 6 seconds) exactly one replica is in \<open>TakeoverSync\<close>.
\<close>

theorem eventual_mutual_exclusion:
  assumes cold: "cold_start e sys"
    and alive: "all_alive evs" and spacing: "all_spaced G None None evs"
    and G: "0 \<le> G" "G \<le> 8000000000"
  shows "\<not> (IsResponsible (ha (repA (schedule evs sys)))
            \<and> IsResponsible (ha (repB (schedule evs sys))))
     \<and> one_incumbent e (registry (schedule evs sys))
     \<and> (evs \<noteq> [] \<and> 5000000000 + G \<le> time_of (last evs) - time_of (hd evs) \<longrightarrow>
          exactly_one (schedule evs sys))
     \<and> (evs \<noteq> [] \<and> G \<le> 6000000000
          \<and> 11000000000 \<le> time_of (last evs) - time_of (hd evs) \<longrightarrow>
          exactly_one (schedule evs sys))"
proof -
  from alive spacing have reg: "regular G None None evs"
    by (simp add: regular_iff)
  show ?thesis
  proof (cases evs)
  case Nil
  with cold show ?thesis
    by (auto simp add: cold_start_def IsResponsible_def getResponsibility_def one_incumbent_def
          vacant_def)
next
  case (Cons ev rest)
  obtain X i where ev: "ev = (X, i)" by (cases ev)
  let ?t = "nowSince (clk i)"
  note r = regular_Cons [OF reg [unfolded Cons ev]]
  have c: "claimed e X ?t ?t (tick X i sys)"
    by (rule tick_first [OF cold r(1)])
  have l: "last_of X (if X = ReplicaA then Some ?t else None) (if X = ReplicaB then Some ?t else None) = Some ?t"
    by (cases X) (simp_all add: last_of_def)
  from on_timeD(6) [OF r(1)] have nn: "0 \<le> ?t" .
  from schedule_claimed [OF c r(3) l nn G]
  obtain tX' where f: "claimed e X ?t tX' (schedule rest (tick X i sys))" "?t \<le> tX'"
      "rest = [] \<longrightarrow> tX' = ?t"
      "rest \<noteq> [] \<longrightarrow> tX' \<le> time_of (last rest) \<and> time_of (last rest) - tX' \<le> G"
    by blast
  have sch: "schedule evs sys = schedule rest (tick X i sys)"
    by (simp add: Cons ev)
  have span: "time_of (last evs) - time_of (hd evs) \<le> tX' - ?t + G"
    using f(3,4) G(1) by (cases "rest = []") (simp_all add: Cons ev time_of_def)
  note out = claimed_outcome [OF f(1), folded sch]
  have e1: "exactly_one (schedule evs sys)"
    if "5000000000 + G \<le> time_of (last evs) - time_of (hd evs)"
    using that span by (intro out(3)) simp
  have e2: "exactly_one (schedule evs sys)"
    if "G \<le> 6000000000" "11000000000 \<le> time_of (last evs) - time_of (hd evs)"
    using that by (intro e1) simp
  from out(1,2) e1 e2 show ?thesis by blast
  qed
qed

theorem eventual_mutual_exclusion_witness:
  "cold_start exEnv exSystem
   \<and> all_alive exSchedule \<and> all_spaced 6000000000 None None exSchedule
   \<and> 11000000000 \<le> time_of (last exSchedule) - time_of (hd exSchedule)
   \<and> exactly_one (schedule exSchedule exSystem)
   \<and> responsibility (ha (repB (schedule exSchedule exSystem))) = TakeoverSync
   \<and> responsibility (ha (repA (schedule exSchedule exSystem))) = readyForTakeover"
proof -
  have c: "cold_start exEnv exSystem"
    by (simp add: cold_start_def exSystem_def entry_def zeroHA_def log_def Icinga2HeartBeat_def
          vacant_def)
  have r: "all_alive exSchedule" "all_spaced 6000000000 None None exSchedule"
    by (simp_all add: exSchedule_def exTick_def on_time_def timely_def upstream_alive_def
          spaced_def clock_at_def Unix_def word_sless_alt)
  have s: "11000000000 \<le> time_of (last exSchedule) - time_of (hd exSchedule)"
    "exSchedule \<noteq> []"
    by (simp_all add: exSchedule_def exTick_def time_of_def clock_at_def)
  have v: "responsibility (ha (repB (schedule exSchedule exSystem))) = TakeoverSync"
    "responsibility (ha (repA (schedule exSchedule exSystem))) = readyForTakeover"
    by (simp_all add: exSchedule_def system_defs model_defs ex_defs)
  from eventual_mutual_exclusion [OF c r] s v c r show ?thesis by simp
qed

text \<open>
  Claim C1 as stated fails when only one kind of heartbeat stays fresh. In \<open>exPause\<close>
  upstream is alive at every iteration, but replica A pauses for 17 seconds: B finds A's row
  11 seconds old and takes over at 17, is promoted at 22, and A, back at 23, finds B's fresh
  row, does not take over and stays in \<open>TakeoverSync\<close>; 12 seconds after the last change both
  are in \<open>TakeoverSync\<close>, with B's row alone marked \<open>'y'\<close>. In \<open>exDrain\<close> both replicas run every
  5 seconds, so that every heartbeat in the table is fresh, but A's upstream is last heard at
  6 and a critical operation is in flight: A goes to \<open>stop\<close> at 21 and stays there, renewing
  its row; 12 seconds later no replica is in \<open>TakeoverSync\<close>.
\<close>

theorem mutual_exclusion_lost:
  "cold_start exEnv exSystem
   \<and> all_alive exPause
   \<and> time_of (exPause ! 3) = 22000000000 \<and> time_of (last exPause) = 34000000000
   \<and> responsibility (ha (repA (schedule (take 4 exPause) exSystem))) = TakeoverSync
   \<and> responsibility (ha (repB (schedule (take 4 exPause) exSystem))) = TakeoverSync
   \<and> responsibility (ha (repA (schedule exPause exSystem))) = TakeoverSync
   \<and> responsibility (ha (repB (schedule exPause exSystem))) = TakeoverSync
   \<and> registry (schedule exPause exSystem) = [exRow 1 33 ''n'', exRow 2 34 ''y'']
   \<and> all_spaced 5000000000 None None exDrain
   \<and> time_of (exDrain ! 8) = 21000000000 \<and> time_of (last exDrain) = 33000000000
   \<and> responsibility (ha (repA (schedule (take 9 exDrain) exSystem))) = stop
   \<and> responsibility (ha (repB (schedule (take 9 exDrain) exSystem))) = readyForTakeover
   \<and> responsibility (ha (repA (schedule exDrain exSystem))) = stop
   \<and> responsibility (ha (repB (schedule exDrain exSystem))) = readyForTakeover
   \<and> registry (schedule exDrain exSystem) = [exRow 1 31 ''y'', exRow 2 33 ''n'']"
proof -
  have c: "cold_start exEnv exSystem"
    by (simp add: cold_start_def exSystem_def entry_def zeroHA_def log_def Icinga2HeartBeat_def
          vacant_def)
  have a: "all_alive exPause"
    by (simp add: exPause_def exTick_def schedule_defs clock_at_def Unix_def word_sless_alt)
  have t: "time_of (exPause ! 3) = 22000000000" "time_of (last exPause) = 34000000000"
    "time_of (exDrain ! 8) = 21000000000" "time_of (last exDrain) = 33000000000"
    by (simp_all add: exPause_def exDrain_def exTick_def exBusy_def time_of_def clock_at_def)
  have p: "responsibility (ha (repA (schedule (take 4 exPause) exSystem))) = TakeoverSync"
    "responsibility (ha (repB (schedule (take 4 exPause) exSystem))) = TakeoverSync"
    "responsibility (ha (repA (schedule exPause exSystem))) = TakeoverSync"
    "responsibility (ha (repB (schedule exPause exSystem))) = TakeoverSync"
    "registry (schedule exPause exSystem) = [exRow 1 33 ''n'', exRow 2 34 ''y'']"
    by (simp_all add: exPause_def system_defs model_defs ex_defs)
  have s: "all_spaced 5000000000 None None exDrain"
    by (simp add: exDrain_def exTick_def exBusy_def schedule_defs clock_at_def)
  have d: "responsibility (ha (repA (schedule (take 9 exDrain) exSystem))) = stop"
    "responsibility (ha (repB (schedule (take 9 exDrain) exSystem))) = readyForTakeover"
    "responsibility (ha (repA (schedule exDrain exSystem))) = stop"
    "responsibility (ha (repB (schedule exDrain exSystem))) = readyForTakeover"
    "registry (schedule exDrain exSystem) = [exRow 1 31 ''y'', exRow 2 33 ''n'']"
    by (simp_all add: exDrain_def system_defs model_defs ex_defs)
  from c a t p s d show ?thesis by simp
qed

end
